theory Spec2Isabelle
  imports Main
begin

section \<open>The Lua bundler of \<open>src/index.ts\<close>\<close>

text \<open>
  The program reads an entry script, finds the files its literal \<open>require\<close> calls name,
  registers one module per reference and prints one script made of a runtime shim, the
  wrapped modules and the entry script.

  A text is a \<open>string\<close>: the list of the code units of a JavaScript string, for the texts
  whose code units are below 256. The file system, Node's \<open>path.resolve\<close> and
  \<open>randomUUID\<close> are not code of the program; they are parameters of the model. The file
  system does not change while the program runs.
\<close>

subsection \<open>The environment\<close>

text \<open>
  \<open>existsSync\<close> answers whether a path exists. \<open>readFileSync\<close> gives the decoded
  content of a file, or \<open>None\<close> where Node throws (no such file, a directory, no
  permission). \<open>path_resolve\<close> is \<open>path.resolve\<close> on the list of its arguments.
\<close>

record env =
  existsSync :: "string \<Rightarrow> bool"
  readFileSync :: "string \<Rightarrow> string option"
  path_resolve :: "string list \<Rightarrow> string"

text \<open>
  An exception is a value: \<open>Error msg\<close> is \<open>new Error(msg)\<close> thrown by the program,
  \<open>FsError p\<close> is the system error of \<open>readFileSync\<close> on the path \<open>p\<close>.
\<close>

datatype error = Error string | FsError string

subsection \<open>The regular expression\<close>

text \<open>
  Both expressions of the program, \<open>/require\(["'].*?["']\)/gi\<close> and
  \<open>/require\(["'](.*?)["']\)/g\<close>, match the same shape; the first ignores case. Without the
  \<open>u\<close> flag a letter of the pattern matches itself and, when case is ignored, its ASCII
  capital, and nothing else.
\<close>

definition ci_eq :: "bool \<Rightarrow> char \<Rightarrow> char \<Rightarrow> bool" where
  \<open>ci_eq ci p c \<longleftrightarrow>
     c = p \<or> (ci \<and> (p, c) \<in> set [(CHR ''r'', CHR ''R''), (CHR ''e'', CHR ''E''),
       (CHR ''q'', CHR ''Q''), (CHR ''u'', CHR ''U''), (CHR ''i'', CHR ''I'')])\<close>

fun starts_with :: "bool \<Rightarrow> string \<Rightarrow> string \<Rightarrow> string option" where
  \<open>starts_with ci [] s = Some s\<close>
| \<open>starts_with ci (p # ps) [] = None\<close>
| \<open>starts_with ci (p # ps) (c # cs) = (if ci_eq ci p c then starts_with ci ps cs else None)\<close>

definition is_quote :: "char \<Rightarrow> bool" where
  \<open>is_quote c \<longleftrightarrow> c = CHR 0x22 \<or> c = CHR 0x27\<close>

text \<open>The dot of a regular expression matches every code unit but a line terminator.\<close>

definition is_line_terminator :: "char \<Rightarrow> bool" where
  \<open>is_line_terminator c \<longleftrightarrow> c = CHR 0x0A \<or> c = CHR 0x0D\<close>

text \<open>
  \<open>.*?["']\)\<close>: the lazy star tries the closing quote and parenthesis first and takes one
  more character only when they are not there. The result is the captured text and the
  text after the match.
\<close>

fun lazy_body :: "string \<Rightarrow> (string \<times> string) option" where
  \<open>lazy_body [] = None\<close>
| \<open>lazy_body (c # cs) =
     (if is_quote c \<and> cs \<noteq> [] \<and> hd cs = CHR '')'' then Some ([], tl cs)
      else if is_line_terminator c then None
      else map_option (\<lambda>(cap, rest). (c # cap, rest)) (lazy_body cs))\<close>

text \<open>A match of the expression at the head of \<open>s\<close>: the capture and the rest of \<open>s\<close>.\<close>

definition match_at :: "bool \<Rightarrow> string \<Rightarrow> (string \<times> string) option" where
  \<open>match_at ci s =
     (case starts_with ci ''require('' s of
        None \<Rightarrow> None
      | Some s1 \<Rightarrow>
          (case s1 of
             [] \<Rightarrow> None
           | q # s2 \<Rightarrow> if is_quote q then lazy_body s2 else None))\<close>

lemma starts_with_length: \<open>starts_with ci ps s = Some r \<Longrightarrow> length s = length ps + length r\<close>
  by (induction ci ps s rule: starts_with.induct) (auto split: if_splits)

lemma lazy_body_length: \<open>lazy_body s = Some (cap, r) \<Longrightarrow> length s = length cap + length r + 2\<close>
proof (induction s arbitrary: cap)
  case Nil
  then show ?case by simp
next
  case (Cons c cs)
  show ?case
  proof (cases \<open>is_quote c \<and> cs \<noteq> [] \<and> hd cs = CHR '')''\<close>)
    case True
    with Cons.prems show ?thesis by (cases cs) auto
  next
    case False
    with Cons.prems obtain cap' where \<open>lazy_body cs = Some (cap', r)\<close> \<open>cap = c # cap'\<close>
      by (auto split: if_splits)
    with Cons.IH show ?thesis by simp
  qed
qed

lemma match_at_length:
  \<open>match_at ci s = Some (cap, r) \<Longrightarrow> length s = length cap + length r + 11\<close>
  unfolding match_at_def
  by (auto split: option.splits list.splits if_splits
      dest!: starts_with_length lazy_body_length)

text \<open>
  A text cut at the matches of a global search: the searches of \<open>match\<close> and \<open>replace\<close>
  go from left to right, and after a match they go on behind it. \<open>Site v cap\<close> is a
  match, with its text \<open>v\<close> and its capture; \<open>Plain c\<close> is a character outside
  every match.
\<close>

datatype seg = Plain char | Site string string

function scan :: "bool \<Rightarrow> string \<Rightarrow> seg list" where
  \<open>scan ci [] = []\<close>
| \<open>scan ci (c # cs) =
     (case match_at ci (c # cs) of
        Some (cap, rest) \<Rightarrow> Site (take (length cap + 11) (c # cs)) cap # scan ci rest
      | None \<Rightarrow> Plain c # scan ci cs)\<close>
  by pat_completeness auto
termination
  by (relation \<open>measure (\<lambda>(ci, s). length s)\<close>) (auto dest: match_at_length)

text \<open>
  \<open>value.match(/require\(["'].*?["']\)/gi)\<close>: the texts of the matches; where there is
  none, \<open>match\<close> gives \<open>null\<close> and \<open>matches?.forEach\<close> does nothing, as for no element.
\<close>

definition req_matches :: "string \<Rightarrow> string list" where
  \<open>req_matches text = concat (map (\<lambda>g. case g of Plain c \<Rightarrow> [] | Site v cap \<Rightarrow> [v]) (scan True text))\<close>

text \<open>
  \<open>v.replace(/require\(["'](.*?)["']\)/, "$1")\<close>: the expression has no \<open>g\<close> flag and does
  not ignore case; the first match in \<open>v\<close> is replaced by its capture, and a \<open>v\<close>
  without a match is returned as it is.
\<close>

fun extract_luaPath :: "string \<Rightarrow> string" where
  \<open>extract_luaPath [] = []\<close>
| \<open>extract_luaPath (c # cs) =
     (case match_at False (c # cs) of
        Some (cap, rest) \<Rightarrow> cap @ rest
      | None \<Rightarrow> c # extract_luaPath cs)\<close>

subsection \<open>LuaModule and LuaBundle\<close>

record LuaModule =
  identifier_m :: string
  path :: string
  uniqueIdentifier :: string
  content :: string

record LuaBundle =
  modules :: "LuaModule list"
  mainFile :: string
  baseDir :: string

text \<open>
  \<open>randomUUID()\<close>: the \<open>k\<close>-th call of a run returns \<open>gen k\<close>; the number of calls made
  so far is passed along.
\<close>

definition LuaModule_new :: "(nat \<Rightarrow> string) \<Rightarrow> nat \<Rightarrow> string \<Rightarrow> string \<Rightarrow> string \<Rightarrow> LuaModule \<times> nat" where
  \<open>LuaModule_new gen k ident p c =
     (\<lparr>identifier_m = ident, path = p, uniqueIdentifier = gen k, content = c\<rparr>, Suc k)\<close>

text \<open>
  The constructor of \<open>LuaBundle\<close>, with the file-system calls it makes, in order.
  A missing base directory and an empty one become \<open>./\<close>.
\<close>

datatype fs_call = ExistsSync string | ReadFileSync string

definition LuaBundle_new :: "env \<Rightarrow> string \<Rightarrow> string option \<Rightarrow> fs_call list \<times> (error + LuaBundle)" where
  \<open>LuaBundle_new fs mainF baseD =
     (if \<not> existsSync fs mainF then ([ExistsSync mainF], Inl (Error ''Main file does not exist''))
      else ([ExistsSync mainF],
            Inr \<lparr>modules = [], mainFile = mainF,
                 baseDir = (case baseD of None \<Rightarrow> ''./'' | Some d \<Rightarrow> if d = [] then ''./'' else d)\<rparr>))\<close>

text \<open>\<open>value.split(".")\<close>: the empty text gives one empty segment.\<close>

fun split_dot :: "string \<Rightarrow> string list" where
  \<open>split_dot [] = [[]]\<close>
| \<open>split_dot (c # cs) =
     (if c = CHR ''.'' then [] # split_dot cs
      else (case split_dot cs of [] \<Rightarrow> [[c]] | g # gs \<Rightarrow> (c # g) # gs))\<close>

definition resolveRequire :: "env \<Rightarrow> string \<Rightarrow> string \<Rightarrow> string option" where
  \<open>resolveRequire fs base v =
     (let c1 = path_resolve fs (base # split_dot v) @ ''.lua'';
          c2 = path_resolve fs (base # split_dot v) @ ''.luau''
      in if existsSync fs c1 then Some c1
         else if existsSync fs c2 then Some c2
         else None)\<close>

subsection \<open>getRequires\<close>

text \<open>
  A call returns a value (\<open>Some (Inr x)\<close>), throws (\<open>Some (Inl e)\<close>) or does not
  return (\<open>None\<close>): \<open>getRequires\<close> calls itself on the content of every file it finds,
  with no bound, and the fuel of the model is the depth of calls it may use.

  \<open>collect\<close> is the body of \<open>matches?.forEach\<close>, with the recursive call as the
  parameter \<open>rec\<close>: a match that does not resolve adds nothing; one that resolves adds its
  pair, then the pairs of the file it names.
\<close>

type_synonym required = "string \<times> string"

fun collect ::
  "env \<Rightarrow> string \<Rightarrow> (string \<Rightarrow> (error + required list) option) \<Rightarrow> string list
    \<Rightarrow> (error + required list) option" where
  \<open>collect fs base rec [] = Some (Inr [])\<close>
| \<open>collect fs base rec (v # vs) =
     (let luaPath = extract_luaPath v in
      case resolveRequire fs base luaPath of
        None \<Rightarrow> collect fs base rec vs
      | Some resolvedPath \<Rightarrow>
          (case readFileSync fs resolvedPath of
             None \<Rightarrow> Some (Inl (FsError resolvedPath))
           | Some moduleContent \<Rightarrow>
               (case rec moduleContent of
                  None \<Rightarrow> None
                | Some (Inl e) \<Rightarrow> Some (Inl e)
                | Some (Inr deps) \<Rightarrow>
                    (case collect fs base rec vs of
                       None \<Rightarrow> None
                     | Some (Inl e) \<Rightarrow> Some (Inl e)
                     | Some (Inr others) \<Rightarrow> Some (Inr ((luaPath, resolvedPath) # deps @ others))))))\<close>

primrec getRequires :: "nat \<Rightarrow> env \<Rightarrow> string \<Rightarrow> string \<Rightarrow> (error + required list) option" where
  \<open>getRequires 0 fs base = (\<lambda>text. None)\<close>
| \<open>getRequires (Suc n) fs base = (\<lambda>text. collect fs base (getRequires n fs base) (req_matches text))\<close>

subsection \<open>remapRequires\<close>

text \<open>The function given to \<open>replace\<close>, on the capture of a match.\<close>

definition remap_site :: "env \<Rightarrow> LuaBundle \<Rightarrow> string \<Rightarrow> error + string" where
  \<open>remap_site fs b v =
     (case resolveRequire fs (baseDir b) v of
        None \<Rightarrow> Inl (Error (''Module "'' @ v @ ''" not found''))
      | Some resolvedPath \<Rightarrow>
          (case find (\<lambda>m. path m = resolvedPath) (modules b) of
             None \<Rightarrow> Inl (Error (''Module "'' @ v @ ''" not found''))
           | Some m \<Rightarrow> Inr (''require("'' @ uniqueIdentifier m @ ''")'')))\<close>

text \<open>
  \<open>replace\<close> with a global expression and a function: every match is replaced by what the
  function returns for it, the text outside the matches is kept, and the first match the
  function throws for ends the call.
\<close>

fun replace_segs :: "(string \<Rightarrow> error + string) \<Rightarrow> seg list \<Rightarrow> error + string" where
  \<open>replace_segs f [] = Inr []\<close>
| \<open>replace_segs f (Plain c # gs) =
     (case replace_segs f gs of Inl e \<Rightarrow> Inl e | Inr t \<Rightarrow> Inr (c # t))\<close>
| \<open>replace_segs f (Site v cap # gs) =
     (case f cap of
        Inl e \<Rightarrow> Inl e
      | Inr r \<Rightarrow> (case replace_segs f gs of Inl e \<Rightarrow> Inl e | Inr t \<Rightarrow> Inr (r @ t)))\<close>

definition remapRequires :: "env \<Rightarrow> LuaBundle \<Rightarrow> string \<Rightarrow> error + string" where
  \<open>remapRequires fs b text = replace_segs (remap_site fs b) (scan False text)\<close>

subsection \<open>bundle\<close>

text \<open>
  The first loop of \<open>bundle\<close>, over the pairs of \<open>getRequires\<close>: a pair whose reference
  some module has is passed over; for another its file is read and a module is pushed.
  The state is the bundle and the count of \<open>randomUUID\<close> calls; it is returned with
  the exception, if one ended the loop.
\<close>

fun register ::
  "env \<Rightarrow> (nat \<Rightarrow> string) \<Rightarrow> required list \<Rightarrow> LuaBundle \<times> nat \<Rightarrow> (LuaBundle \<times> nat) \<times> error option" where
  \<open>register fs gen [] (b, k) = ((b, k), None)\<close>
| \<open>register fs gen ((luaPath, resolvedPath) # rs) (b, k) =
     (if list_ex (\<lambda>m. identifier_m m = luaPath) (modules b) then register fs gen rs (b, k)
      else (case readFileSync fs resolvedPath of
              None \<Rightarrow> ((b, k), Some (FsError resolvedPath))
            | Some c \<Rightarrow>
                (let (m, k') = LuaModule_new gen k luaPath resolvedPath c
                 in register fs gen rs (b\<lparr>modules := modules b @ [m]\<rparr>, k'))))\<close>

text \<open>\<open>map\<close> with a function that may throw: the first exception ends it.\<close>

fun map_throw :: "('a \<Rightarrow> error + 'b) \<Rightarrow> 'a list \<Rightarrow> error + 'b list" where
  \<open>map_throw f [] = Inr []\<close>
| \<open>map_throw f (x # xs) =
     (case f x of
        Inl e \<Rightarrow> Inl e
      | Inr y \<Rightarrow> (case map_throw f xs of Inl e \<Rightarrow> Inl e | Inr ys \<Rightarrow> Inr (y # ys)))\<close>

text \<open>\<open>join("\n")\<close>.\<close>

fun join_nl :: "string list \<Rightarrow> string" where
  \<open>join_nl [] = []\<close>
| \<open>join_nl [x] = x\<close>
| \<open>join_nl (x # y # ys) = x @ [CHR 0x0A] @ join_nl (y # ys)\<close>

text \<open>The fixed head of the template: the lookup table and the \<open>require\<close> of the output.\<close>

definition shim :: string where
  \<open>shim = [CHR 0x0A] @ ''local modules = {}'' @ [CHR 0x0A]
     @ ''local require = function(name)'' @ [CHR 0x0A]
     @ ''  return modules[name]()'' @ [CHR 0x0A]
     @ ''end'' @ [CHR 0x0A]\<close>

text \<open>
  The text of one module in the output: the assignment of a function to the entry of the
  table under the module's identifier, around the remapped content.
\<close>

definition wrap_text :: "LuaModule \<Rightarrow> string \<Rightarrow> string" where
  \<open>wrap_text m body =
     ''modules["'' @ uniqueIdentifier m @ ''"] = function()'' @ [CHR 0x0A] @ body @ [CHR 0x0A] @ ''end''\<close>

definition wrap_module :: "env \<Rightarrow> LuaBundle \<Rightarrow> LuaModule \<Rightarrow> error + string" where
  \<open>wrap_module fs b m =
     (case remapRequires fs b (content m) of
        Inl e \<Rightarrow> Inl e
      | Inr body \<Rightarrow> Inr (wrap_text m body))\<close>

text \<open>
  \<open>bundle()\<close> on the bundle \<open>b\<close>, after \<open>k\<close> calls of \<open>randomUUID\<close>: what it returns or
  throws, and the state it leaves.
\<close>

definition bundle_lua ::
  "nat \<Rightarrow> env \<Rightarrow> (nat \<Rightarrow> string) \<Rightarrow> LuaBundle \<times> nat \<Rightarrow> ((error + string) \<times> LuaBundle \<times> nat) option" where
  \<open>bundle_lua fuel fs gen s =
     (case s of (b, k) \<Rightarrow>
      (case readFileSync fs (mainFile b) of
         None \<Rightarrow> Some (Inl (FsError (mainFile b)), b, k)
       | Some main \<Rightarrow>
           (case getRequires fuel fs (baseDir b) main of
              None \<Rightarrow> None
            | Some (Inl e) \<Rightarrow> Some (Inl e, b, k)
            | Some (Inr requiredFiles) \<Rightarrow>
                (case register fs gen requiredFiles (b, k) of
                   ((b', k'), Some e) \<Rightarrow> Some (Inl e, b', k')
                 | ((b', k'), None) \<Rightarrow>
                     (case map_throw (wrap_module fs b') (modules b') of
                        Inl e \<Rightarrow> Some (Inl e, b', k')
                      | Inr wrapped \<Rightarrow>
                          (case remapRequires fs b' main of
                             Inl e \<Rightarrow> Some (Inl e, b', k')
                           | Inr body \<Rightarrow>
                               Some (Inr (shim @ join_nl wrapped @ [CHR 0x0A] @ body @ [CHR 0x0A]),
                                     b', k')))))))\<close>

subsection \<open>An environment to run the model in\<close>

text \<open>
  A file system given by the list of its files, and \<open>path.resolve\<close> as it is on an absolute,
  normal base directory and segments without a slash: the empty segments are dropped and
  the others are joined to the base with slashes.
\<close>

definition join_resolve :: "string list \<Rightarrow> string" where
  \<open>join_resolve args =
     (case args of
        [] \<Rightarrow> []
      | base # gs \<Rightarrow> base @ concat (map (\<lambda>g. ''/'' @ g) (filter (\<lambda>g. g \<noteq> []) gs)))\<close>

definition disk :: "(string \<times> string) list \<Rightarrow> env" where
  \<open>disk files =
     \<lparr>existsSync = (\<lambda>p. map_of files p \<noteq> None), readFileSync = map_of files,
      path_resolve = join_resolve\<rparr>\<close>

text \<open>A run from the start: the constructor, then \<open>bundle\<close>.\<close>

definition fresh :: "string \<Rightarrow> string \<Rightarrow> LuaBundle" where
  \<open>fresh mainF base = \<lparr>modules = [], mainFile = mainF, baseDir = base\<rparr>\<close>

subsection \<open>Notions of the statements\<close>

text \<open>The text a segment stands for.\<close>

fun seg_text :: "seg \<Rightarrow> string" where
  \<open>seg_text (Plain c) = [c]\<close>
| \<open>seg_text (Site v cap) = v\<close>


definition call_site :: "char \<Rightarrow> string \<Rightarrow> char \<Rightarrow> string" where
  \<open>call_site q1 r q2 = ''require('' @ [q1] @ r @ [q2] @ '')''\<close>







text \<open>An injective supply of identifiers, to run the model.\<close>

definition example_uuid :: "nat \<Rightarrow> string" where
  \<open>example_uuid k = ''u'' @ replicate k (CHR ''+'')\<close>

text \<open>The segments of a reference put together again, with the dots between them.\<close>

fun join_dot :: "string list \<Rightarrow> string" where
  \<open>join_dot [] = []\<close>
| \<open>join_dot [x] = x\<close>
| \<open>join_dot (x # y # ys) = x @ ''.'' @ join_dot (y # ys)\<close>

text \<open>
  A project to run the model on: the entry script requires \<open>x\<close> and \<open>y.z\<close>, and \<open>x\<close>
  requires \<open>y.z\<close>; the bundle and the output of the run.
\<close>

definition disk_xyz :: env where
  \<open>disk_xyz = disk
     [(''/p/main.lua'', ''local x = require("x")'' @ [CHR 0x0A] @ ''return require('y.z')''),
      (''/p/x.lua'', ''return require("y.z")''),
      (''/p/y/z.luau'', ''return 1'')]\<close>

definition bundle_xyz :: LuaBundle where
  \<open>bundle_xyz =
     \<lparr>modules =
        [\<lparr>identifier_m = ''x'', path = ''/p/x.lua'', uniqueIdentifier = ''u'',
          content = ''return require("y.z")''\<rparr>,
         \<lparr>identifier_m = ''y.z'', path = ''/p/y/z.luau'', uniqueIdentifier = ''u+'',
          content = ''return 1''\<rparr>],
      mainFile = ''/p/main.lua'', baseDir = ''/p''\<rparr>\<close>

definition out_xyz :: string where
  \<open>out_xyz = [CHR 0x0A] @ ''local modules = {}'' @ [CHR 0x0A]
     @ ''local require = function(name)'' @ [CHR 0x0A]
     @ ''  return modules[name]()'' @ [CHR 0x0A]
     @ ''end'' @ [CHR 0x0A]
     @ ''modules["u"] = function()'' @ [CHR 0x0A] @ ''return require("u+")'' @ [CHR 0x0A] @ ''end''
     @ [CHR 0x0A]
     @ ''modules["u+"] = function()'' @ [CHR 0x0A] @ ''return 1'' @ [CHR 0x0A] @ ''end''
     @ [CHR 0x0A]
     @ ''local x = require("u")'' @ [CHR 0x0A] @ ''return require("u+")'' @ [CHR 0x0A]\<close>

text \<open>
  What \<open>remapRequires\<close> puts for a segment: a character outside the matches as it is, and
  for a match, which is a literal call, the call \<open>require("...")\<close>, in double quotes, of
  the \<open>uniqueIdentifier\<close> of the found module: the first module of the bundle whose path
  is the path that the reference of the call resolves to.
\<close>

definition site_rewritten :: "env \<Rightarrow> LuaBundle \<Rightarrow> seg \<Rightarrow> string \<Rightarrow> bool" where
  \<open>site_rewritten fs b g p \<longleftrightarrow>
     (case g of
        Plain c \<Rightarrow> p = [c]
      | Site v cap \<Rightarrow>
          (\<exists>q1 q2 rp m. is_quote q1 \<and> is_quote q2 \<and> v = call_site q1 cap q2
             \<and> resolveRequire fs (baseDir b) cap = Some rp
             \<and> find (\<lambda>m. path m = rp) (modules b) = Some m
             \<and> p = call_site (CHR 0x22) (uniqueIdentifier m) (CHR 0x22)))\<close>


text \<open>
  A project whose entry script has, on a line of its own, a call of \<open>require\<close> on a
  variable; the bundle and the output of the run.
\<close>

definition disk_dyn :: env where
  \<open>disk_dyn = disk
     [(''/p/main.lua'',
       ''local x = require("x")'' @ [CHR 0x0A] @ ''local m = require(name)'' @ [CHR 0x0A] @ ''return m''),
      (''/p/x.lua'', ''return 1'')]\<close>

definition bundle_dyn :: LuaBundle where
  \<open>bundle_dyn =
     \<lparr>modules =
        [\<lparr>identifier_m = ''x'', path = ''/p/x.lua'', uniqueIdentifier = ''u'', content = ''return 1''\<rparr>],
      mainFile = ''/p/main.lua'', baseDir = ''/p''\<rparr>\<close>

definition out_dyn :: string where
  \<open>out_dyn = shim
     @ ''modules["u"] = function()'' @ [CHR 0x0A] @ ''return 1'' @ [CHR 0x0A] @ ''end'' @ [CHR 0x0A]
     @ ''local x = require("u")'' @ [CHR 0x0A] @ ''local m = require(name)'' @ [CHR 0x0A]
     @ ''return m'' @ [CHR 0x0A]\<close>


text \<open>The elements of a list in the order in which they first occur, each once.\<close>

function first_occurrences :: "'a list \<Rightarrow> 'a list" where
  \<open>first_occurrences [] = []\<close>
| \<open>first_occurrences (x # xs) = x # first_occurrences (filter (\<lambda>y. y \<noteq> x) xs)\<close>
  by pat_completeness auto
termination
  by (relation \<open>measure length\<close>) (auto simp: less_Suc_eq_le)

text \<open>
  A project whose entry script requires one file under two references, \<open>a.b\<close> and
  \<open>a..b\<close>; the bundle and the output of the run.
\<close>

definition disk_twice :: env where
  \<open>disk_twice = disk
     [(''/p/main.lua'', ''require("a.b") require("a..b")''),
      (''/p/a/b.lua'', ''return 1'')]\<close>

definition bundle_twice :: LuaBundle where
  \<open>bundle_twice =
     \<lparr>modules =
        [\<lparr>identifier_m = ''a.b'', path = ''/p/a/b.lua'', uniqueIdentifier = ''u'', content = ''return 1''\<rparr>,
         \<lparr>identifier_m = ''a..b'', path = ''/p/a/b.lua'', uniqueIdentifier = ''u+'', content = ''return 1''\<rparr>],
      mainFile = ''/p/main.lua'', baseDir = ''/p''\<rparr>\<close>

definition out_twice :: string where
  \<open>out_twice = shim
     @ ''modules["u"] = function()'' @ [CHR 0x0A] @ ''return 1'' @ [CHR 0x0A] @ ''end'' @ [CHR 0x0A]
     @ ''modules["u+"] = function()'' @ [CHR 0x0A] @ ''return 1'' @ [CHR 0x0A] @ ''end'' @ [CHR 0x0A]
     @ ''require("u") require("u")'' @ [CHR 0x0A]\<close>

text \<open>
  The require graph: the paths that the matches of a text resolve to, the relation of a
  file to the files that the matches of its content resolve to, and the files reached from a
  text.
\<close>

definition resolved_requires :: "env \<Rightarrow> string \<Rightarrow> string \<Rightarrow> string list" where
  \<open>resolved_requires fs base s =
     List.map_filter (\<lambda>v. resolveRequire fs base (extract_luaPath v)) (req_matches s)\<close>

definition requires_rel :: "env \<Rightarrow> string \<Rightarrow> (string \<times> string) set" where
  \<open>requires_rel fs base =
     {(p, q). \<exists>c. readFileSync fs p = Some c \<and> q \<in> set (resolved_requires fs base c)}\<close>

definition reachable_files :: "env \<Rightarrow> string \<Rightarrow> string \<Rightarrow> string set" where
  \<open>reachable_files fs base s = (requires_rel fs base)\<^sup>* `` set (resolved_requires fs base s)\<close>

text \<open>
  A project whose entry script requires \<open>x\<close> and then \<open>y\<close>, where \<open>x\<close> requires \<open>z\<close>
  and \<open>y\<close> requires nothing: \<open>x\<close> and \<open>y\<close> share no dependency.
\<close>

definition disk_xzy :: env where
  \<open>disk_xzy = disk
     [(''/p/main.lua'', ''require("x") require("y")''),
      (''/p/x.lua'', ''return require("z")''),
      (''/p/y.lua'', ''return 2''),
      (''/p/z.lua'', ''return 3'')]\<close>

section \<open>Properties\<close>

subsection \<open>Resolution of a reference\<close>

lemma split_dot_not_Nil: \<open>split_dot v \<noteq> []\<close>
  by (induction v) (auto split: list.splits)

lemma split_dot_no_dot: \<open>g \<in> set (split_dot v) \<Longrightarrow> CHR ''.'' \<notin> set g\<close>
  by (induction v arbitrary: g) (auto split: list.splits if_splits)

lemma join_dot_split_dot: \<open>join_dot (split_dot v) = v\<close>
proof (induction v)
  case Nil
  then show ?case by simp
next
  case (Cons c cs)
  obtain g gs where sp: \<open>split_dot cs = g # gs\<close>
    using split_dot_not_Nil [of cs] by (cases \<open>split_dot cs\<close>) auto
  with Cons show ?case by (cases gs) auto
qed

text \<open>
  Claim C3. \<open>resolveRequire\<close> cuts the reference at its dots (the segments hold no dot
  and, joined by dots, are the reference), gives the base directory and the segments to
  \<open>path.resolve\<close>, and probes the result with \<open>.lua\<close> before \<open>.luau\<close>: it returns the
  \<open>.lua\<close> candidate when that exists, the \<open>.luau\<close> candidate when only that exists,
  and nothing exactly when neither exists.
\<close>

theorem resolveRequire_probes_lua_then_luau:
  \<open>(existsSync fs (path_resolve fs (base # split_dot v) @ ''.lua'')
      \<longrightarrow> resolveRequire fs base v = Some (path_resolve fs (base # split_dot v) @ ''.lua''))
   \<and> (\<not> existsSync fs (path_resolve fs (base # split_dot v) @ ''.lua'')
        \<and> existsSync fs (path_resolve fs (base # split_dot v) @ ''.luau'')
      \<longrightarrow> resolveRequire fs base v = Some (path_resolve fs (base # split_dot v) @ ''.luau''))
   \<and> (resolveRequire fs base v = None
      \<longleftrightarrow> \<not> existsSync fs (path_resolve fs (base # split_dot v) @ ''.lua'')
          \<and> \<not> existsSync fs (path_resolve fs (base # split_dot v) @ ''.luau''))
   \<and> join_dot (split_dot v) = v
   \<and> (\<forall>g \<in> set (split_dot v). CHR ''.'' \<notin> set g)\<close>
  by (simp add: resolveRequire_def Let_def join_dot_split_dot split_dot_no_dot)

theorem resolveRequire_probes_lua_then_luau_witness:
  \<open>resolveRequire (disk [(''/p/a/b.luau'', ''x''), (''/p/a/b.lua'', ''y'')]) ''/p'' ''a.b''
      = Some ''/p/a/b.lua''
   \<and> resolveRequire (disk [(''/p/a/b.luau'', ''x'')]) ''/p'' ''a.b'' = Some ''/p/a/b.luau''
   \<and> resolveRequire (disk []) ''/p'' ''a.b'' = None\<close>
  using
    resolveRequire_probes_lua_then_luau
      [of \<open>disk [(''/p/a/b.luau'', ''x''), (''/p/a/b.lua'', ''y'')]\<close> \<open>''/p''\<close> \<open>''a.b''\<close>]
    resolveRequire_probes_lua_then_luau [of \<open>disk [(''/p/a/b.luau'', ''x'')]\<close> \<open>''/p''\<close> \<open>''a.b''\<close>]
    resolveRequire_probes_lua_then_luau [of \<open>disk []\<close> \<open>''/p''\<close> \<open>''a.b''\<close>]
  by (simp add: disk_def join_resolve_def)

subsection \<open>The constructor\<close>

text \<open>
  Claim C5. For an entry path that does not exist, the constructor throws
  \<open>Main file does not exist\<close>: no bundle comes to be, so that no extraction can start,
  and the one call to the file system it has made is the test of the entry path.
\<close>

theorem constructor_fails_fast:
  \<open>\<not> existsSync fs mainF \<Longrightarrow>
     LuaBundle_new fs mainF baseD = ([ExistsSync mainF], Inl (Error ''Main file does not exist''))\<close>
  by (simp add: LuaBundle_new_def)

theorem constructor_fails_fast_witness:
  \<open>\<not> existsSync (disk [(''/p/x.lua'', ''return 1'')]) ''/p/main.lua''
   \<and> LuaBundle_new (disk [(''/p/x.lua'', ''return 1'')]) ''/p/main.lua'' (Some ''/p'')
       = ([ExistsSync ''/p/main.lua''], Inl (Error ''Main file does not exist''))\<close>
  using constructor_fails_fast [of \<open>disk [(''/p/x.lua'', ''return 1'')]\<close> \<open>''/p/main.lua''\<close> \<open>Some ''/p''\<close>]
  by (simp add: disk_def)

subsection \<open>The matches of the regular expression\<close>

lemma starts_with_split:
  \<open>starts_with ci ps s = Some r \<Longrightarrow> \<exists>kw. s = kw @ r \<and> list_all2 (ci_eq ci) ps kw\<close>
proof (induction ci ps s rule: starts_with.induct)
  case (1 ci s)
  then show ?case by simp
next
  case (2 ci p ps)
  then show ?case by simp
next
  case (3 ci p ps c cs)
  then have \<open>ci_eq ci p c\<close> and \<open>starts_with ci ps cs = Some r\<close>
    by (auto split: if_splits)
  with 3 obtain kw where \<open>cs = kw @ r\<close> \<open>list_all2 (ci_eq ci) ps kw\<close> by blast
  with \<open>ci_eq ci p c\<close> have \<open>c # cs = (c # kw) @ r \<and> list_all2 (ci_eq ci) (p # ps) (c # kw)\<close> by simp
  then show ?case by blast
qed

lemma starts_with_exact: \<open>starts_with False ps s = Some r \<Longrightarrow> s = ps @ r\<close>
  by (induction False ps s rule: starts_with.induct) (auto simp: ci_eq_def split: if_splits)

lemma lazy_body_split:
  \<open>lazy_body s = Some (cap, r) \<Longrightarrow>
     \<exists>q. is_quote q \<and> s = cap @ q # CHR '')'' # r \<and> (\<forall>c \<in> set cap. \<not> is_line_terminator c)\<close>
proof (induction s arbitrary: cap)
  case Nil
  then show ?case by simp
next
  case (Cons c cs)
  show ?case
  proof (cases \<open>is_quote c \<and> cs \<noteq> [] \<and> hd cs = CHR '')''\<close>)
    case True
    with Cons.prems have \<open>cap = []\<close> \<open>r = tl cs\<close> by auto
    with True show ?thesis by (cases cs) auto
  next
    case False
    with Cons.prems obtain cap' where 1: \<open>lazy_body cs = Some (cap', r)\<close> \<open>cap = c # cap'\<close>
      \<open>\<not> is_line_terminator c\<close>
      by (auto split: if_splits)
    from Cons.IH [OF 1(1)] 1(2,3) show ?thesis by auto
  qed
qed

lemma match_at_split:
  assumes \<open>match_at ci s = Some (cap, r)\<close>
  shows \<open>\<exists>kw q1 q2. s = kw @ q1 # cap @ q2 # CHR '')'' # r \<and> list_all2 (ci_eq ci) ''require('' kw
            \<and> is_quote q1 \<and> is_quote q2 \<and> (\<forall>c \<in> set cap. \<not> is_line_terminator c)\<close>
proof -
  from assms obtain q1 s2 where sw: \<open>starts_with ci ''require('' s = Some (q1 # s2)\<close>
    and q1: \<open>is_quote q1\<close> and lb: \<open>lazy_body s2 = Some (cap, r)\<close>
    unfolding match_at_def by (auto split: option.splits list.splits if_splits)
  from starts_with_split [OF sw] obtain kw where kw: \<open>s = kw @ q1 # s2\<close>
    \<open>list_all2 (ci_eq ci) ''require('' kw\<close> by blast
  from lazy_body_split [OF lb] obtain q2 where \<open>is_quote q2\<close> \<open>s2 = cap @ q2 # CHR '')'' # r\<close>
    \<open>\<forall>c \<in> set cap. \<not> is_line_terminator c\<close> by blast
  with kw q1 show ?thesis by blast
qed

lemma match_at_exact:
  assumes \<open>match_at False s = Some (cap, r)\<close>
  shows \<open>\<exists>q1 q2. s = ''require('' @ q1 # cap @ q2 # CHR '')'' # r \<and> is_quote q1 \<and> is_quote q2\<close>
proof -
  from assms obtain q1 s2 where sw: \<open>starts_with False ''require('' s = Some (q1 # s2)\<close>
    and q1: \<open>is_quote q1\<close> and lb: \<open>lazy_body s2 = Some (cap, r)\<close>
    unfolding match_at_def by (auto split: option.splits list.splits if_splits)
  from lazy_body_split [OF lb] obtain q2 where \<open>is_quote q2\<close> \<open>s2 = cap @ q2 # CHR '')'' # r\<close>
    by blast
  with starts_with_exact [OF sw] q1 show ?thesis by auto
qed

lemma match_at_take:
  \<open>match_at ci s = Some (cap, r) \<Longrightarrow> take (length cap + 11) s @ r = s\<close>
proof -
  assume a: \<open>match_at ci s = Some (cap, r)\<close>
  from match_at_split [OF a] obtain kw q1 q2 where s: \<open>s = kw @ q1 # cap @ q2 # CHR '')'' # r\<close>
    and kw: \<open>list_all2 (ci_eq ci) ''require('' kw\<close> by blast
  define pre where \<open>pre = kw @ q1 # cap @ [q2, CHR '')'']\<close>
  from kw have \<open>length kw = 8\<close> by (auto dest: list_all2_lengthD)
  then have \<open>length pre = length cap + 11\<close> by (simp add: pre_def)
  moreover from s have \<open>s = pre @ r\<close> by (simp add: pre_def)
  ultimately show ?thesis by simp
qed

lemma scan_concat: \<open>concat (map seg_text (scan ci s)) = s\<close>
proof (induction ci s rule: scan.induct)
  case (1 ci)
  then show ?case by simp
next
  case (2 ci c cs)
  show ?case
  proof (cases \<open>match_at ci (c # cs)\<close>)
    case None
    with 2 show ?thesis by simp
  next
    case (Some a)
    obtain cap rest where a: \<open>a = (cap, rest)\<close> by (cases a)
    from 2(2) [OF Some a [symmetric]] match_at_take [of ci \<open>c # cs\<close> cap rest] Some a
    show ?thesis by simp
  qed
qed





lemma length_call_site: \<open>length (call_site q1 r q2) = length r + 11\<close>
  by (simp add: call_site_def)




lemma replace_segs_Inr:
  \<open>replace_segs f gs = Inr out \<Longrightarrow>
     \<exists>pieces. out = concat pieces
        \<and> list_all2 (\<lambda>g p. case g of Plain c \<Rightarrow> p = [c] | Site v cap \<Rightarrow> f cap = Inr p) gs pieces\<close>
proof (induction f gs arbitrary: out rule: replace_segs.induct)
  case (1 f)
  then show ?case by simp
next
  case (2 f c gs)
  then obtain t where t: \<open>replace_segs f gs = Inr t\<close> \<open>out = c # t\<close>
    by (auto split: sum.splits)
  from 2(1) [OF t(1)] obtain pieces where \<open>t = concat pieces\<close>
    \<open>list_all2 (\<lambda>g p. case g of Plain c \<Rightarrow> p = [c] | Site v cap \<Rightarrow> f cap = Inr p) gs pieces\<close>
    by blast
  with t(2) have \<open>out = concat ([c] # pieces)
      \<and> list_all2 (\<lambda>g p. case g of Plain c \<Rightarrow> p = [c] | Site v cap \<Rightarrow> f cap = Inr p) (Plain c # gs) ([c] # pieces)\<close>
    by simp
  then show ?case by blast
next
  case (3 f v cap gs)
  then obtain r t where t: \<open>f cap = Inr r\<close> \<open>replace_segs f gs = Inr t\<close> \<open>out = r @ t\<close>
    by (auto split: sum.splits)
  from 3(1) [OF t(1) t(2)] obtain pieces where \<open>t = concat pieces\<close>
    \<open>list_all2 (\<lambda>g p. case g of Plain c \<Rightarrow> p = [c] | Site v cap \<Rightarrow> f cap = Inr p) gs pieces\<close>
    by blast
  with t have \<open>out = concat (r # pieces)
      \<and> list_all2 (\<lambda>g p. case g of Plain c \<Rightarrow> p = [c] | Site v cap \<Rightarrow> f cap = Inr p) (Site v cap # gs) (r # pieces)\<close>
    by simp
  then show ?case by blast
qed



lemma replace_segs_no_site:
  \<open>\<forall>g \<in> set gs. \<forall>v cap. g \<noteq> Site v cap \<Longrightarrow> replace_segs f gs = Inr (concat (map seg_text gs))\<close>
  by (induction f gs rule: replace_segs.induct) (auto split: sum.splits)

lemma scan_site_exact:
  \<open>Site v cap \<in> set (scan False s) \<Longrightarrow>
     \<exists>q1 q2. is_quote q1 \<and> is_quote q2 \<and> v = call_site q1 cap q2\<close>
proof (induction False s rule: scan.induct)
  case 1
  then show ?case by simp
next
  case (2 c cs)
  show ?case
  proof (cases \<open>match_at False (c # cs)\<close>)
    case None
    with 2 show ?thesis by simp
  next
    case (Some a)
    obtain cap' rest where a: \<open>a = (cap', rest)\<close> by (cases a)
    from 2(3) Some a consider \<open>v = take (length cap' + 11) (c # cs)\<close> \<open>cap = cap'\<close>
      | \<open>Site v cap \<in> set (scan False rest)\<close> by auto
    then show ?thesis
    proof cases
      case 1
      from match_at_exact [of \<open>c # cs\<close> cap' rest] Some a obtain q1 q2 where
        q: \<open>c # cs = call_site q1 cap' q2 @ rest\<close> \<open>is_quote q1\<close> \<open>is_quote q2\<close>
        by (auto simp: call_site_def)
      have \<open>take (length cap' + 11) (call_site q1 cap' q2 @ rest) = call_site q1 cap' q2\<close>
        by (simp add: length_call_site)
      with 1 q show ?thesis by metis
    next
      case 2
      with "2.hyps"(2) [OF Some a [symmetric]] show ?thesis by blast
    qed
  qed
qed







subsection \<open>The steps of bundle\<close>


lemma map_throw_Inl:
  \<open>x \<in> set xs \<Longrightarrow> f x = Inl e \<Longrightarrow> \<exists>e'. map_throw f xs = Inl e'\<close>
  by (induction f xs rule: map_throw.induct) (auto split: sum.splits)

lemma bundle_lua_success:
  assumes \<open>bundle_lua fuel fs gen (b, k) = Some (Inr out, b', k')\<close>
  shows \<open>\<exists>main reqs wrapped body.
      readFileSync fs (mainFile b) = Some main
      \<and> getRequires fuel fs (baseDir b) main = Some (Inr reqs)
      \<and> register fs gen reqs (b, k) = ((b', k'), None)
      \<and> map_throw (wrap_module fs b') (modules b') = Inr wrapped
      \<and> remapRequires fs b' main = Inr body
      \<and> out = shim @ join_nl wrapped @ [CHR 0x0A] @ body @ [CHR 0x0A]\<close>
  using assms unfolding bundle_lua_def
  by (auto split: option.splits sum.splits prod.splits)

lemma bundle_lua_state:
  assumes \<open>bundle_lua fuel fs gen (b, k) = Some (res, b', k')\<close>
    and \<open>readFileSync fs (mainFile b) = Some main\<close>
    and \<open>getRequires fuel fs (baseDir b) main = Some (Inr reqs)\<close>
  shows \<open>fst (register fs gen reqs (b, k)) = (b', k')\<close>
  using assms unfolding bundle_lua_def
  by (auto split: option.splits sum.splits prod.splits)


lemma collect_sound:
  assumes \<open>\<And>c rs. rec c = Some (Inr rs) \<Longrightarrow>
      \<forall>(lp, rp) \<in> set rs. resolveRequire fs base lp = Some rp \<and> readFileSync fs rp \<noteq> None\<close>
    and \<open>collect fs base rec vs = Some (Inr reqs)\<close>
  shows \<open>\<forall>(lp, rp) \<in> set reqs. resolveRequire fs base lp = Some rp \<and> readFileSync fs rp \<noteq> None\<close>
  using assms(2)
proof (induction vs arbitrary: reqs)
  case Nil
  then show ?case by simp
next
  case (Cons v vs)
  show ?case
  proof (cases \<open>resolveRequire fs base (extract_luaPath v)\<close>)
    case None
    with Cons show ?thesis by simp
  next
    case (Some rp)
    with Cons.prems obtain c deps others where
      c: \<open>readFileSync fs rp = Some c\<close> and d: \<open>rec c = Some (Inr deps)\<close>
      and o: \<open>collect fs base rec vs = Some (Inr others)\<close>
      and reqs: \<open>reqs = (extract_luaPath v, rp) # deps @ others\<close>
      by (auto simp: Let_def split: option.splits sum.splits)
    from assms(1) [OF d] Cons.IH [OF o] Some c reqs show ?thesis by auto
  qed
qed

lemma getRequires_sound:
  \<open>getRequires n fs base s = Some (Inr reqs) \<Longrightarrow>
     \<forall>(lp, rp) \<in> set reqs. resolveRequire fs base lp = Some rp \<and> readFileSync fs rp \<noteq> None\<close>
proof (induction n arbitrary: s reqs)
  case 0
  then show ?case by simp
next
  case (Suc n)
  from Suc.prems have \<open>collect fs base (getRequires n fs base) (req_matches s) = Some (Inr reqs)\<close>
    by simp
  then show ?case
    using collect_sound [of \<open>getRequires n fs base\<close> fs base \<open>req_matches s\<close> reqs] Suc.IH
    by blast
qed

lemma map_throw_wrap_module:
  \<open>map_throw (wrap_module fs b) ms = Inr wrapped \<Longrightarrow>
     \<exists>bodies. list_all2 (\<lambda>m bd. remapRequires fs b (content m) = Inr bd) ms bodies
        \<and> wrapped = map2 wrap_text ms bodies\<close>
proof (induction ms arbitrary: wrapped)
  case Nil
  then show ?case by simp
next
  case (Cons m ms)
  from Cons.prems obtain w ws where w: \<open>wrap_module fs b m = Inr w\<close>
    and ws: \<open>map_throw (wrap_module fs b) ms = Inr ws\<close> and wrapped: \<open>wrapped = w # ws\<close>
    by (auto split: sum.splits)
  from Cons.IH [OF ws] obtain bodies where
    bs: \<open>list_all2 (\<lambda>m bd. remapRequires fs b (content m) = Inr bd) ms bodies\<close>
    and ws': \<open>ws = map2 wrap_text ms bodies\<close> by blast
  from w obtain bd where bd: \<open>remapRequires fs b (content m) = Inr bd\<close> and w': \<open>w = wrap_text m bd\<close>
    by (auto simp: wrap_module_def split: sum.splits)
  have \<open>list_all2 (\<lambda>m bd. remapRequires fs b (content m) = Inr bd) (m # ms) (bd # bodies)
      \<and> wrapped = map2 wrap_text (m # ms) (bd # bodies)\<close>
    using bs bd ws' w' wrapped by simp
  then show ?case by (rule exI)
qed

lemma run_twice:
  \<open>bundle_lua 2 disk_twice example_uuid (fresh ''/p/main.lua'' ''/p'', 0)
     = Some (Inr out_twice, bundle_twice, 2)\<close>
  by code_simp

lemma run_xyz:
  \<open>bundle_lua 3 disk_xyz example_uuid (fresh ''/p/main.lua'' ''/p'', 0)
     = Some (Inr out_xyz, bundle_xyz, 2)\<close>
  by code_simp

subsection \<open>The output of bundle\<close>

text \<open>
  Claim C1. When \<open>bundle\<close> returns, its text is, in this order: the shim, which is the
  line \<open>local modules = {}\<close> (the empty table) and the function \<open>require\<close> that returns
  \<open>modules[name]()\<close> (it indexes the table and calls the function stored there); then for
  every module of the bundle, in the order of \<open>modules\<close>, the assignment
  \<open>modules["uniqueIdentifier"] = function()\<close>, the remapped content of the module and
  \<open>end\<close>, the assignments joined by newlines; then the remapped content of the entry file,
  outside every function and every entry of the table.
\<close>

theorem bundle_output_structure:
  assumes \<open>bundle_lua fuel fs gen (b, k) = Some (Inr out, b', k')\<close>
  shows \<open>\<exists>main bodies body.
      readFileSync fs (mainFile b) = Some main
      \<and> list_all2 (\<lambda>m bd. remapRequires fs b' (content m) = Inr bd) (modules b') bodies
      \<and> remapRequires fs b' main = Inr body
      \<and> out = [CHR 0x0A] @ ''local modules = {}'' @ [CHR 0x0A]
          @ ''local require = function(name)'' @ [CHR 0x0A]
          @ ''  return modules[name]()'' @ [CHR 0x0A]
          @ ''end'' @ [CHR 0x0A]
          @ join_nl (map2 (\<lambda>m bd. ''modules["'' @ uniqueIdentifier m @ ''"] = function()''
                @ [CHR 0x0A] @ bd @ [CHR 0x0A] @ ''end'') (modules b') bodies)
          @ [CHR 0x0A] @ body @ [CHR 0x0A]\<close>
proof -
  from bundle_lua_success [OF assms] obtain main wrapped body where
    main: \<open>readFileSync fs (mainFile b) = Some main\<close>
    and wr: \<open>map_throw (wrap_module fs b') (modules b') = Inr wrapped\<close>
    and body: \<open>remapRequires fs b' main = Inr body\<close>
    and out: \<open>out = shim @ join_nl wrapped @ [CHR 0x0A] @ body @ [CHR 0x0A]\<close>
    by blast
  from map_throw_wrap_module [OF wr] obtain bodies where
    bs: \<open>list_all2 (\<lambda>m bd. remapRequires fs b' (content m) = Inr bd) (modules b') bodies\<close>
    and w: \<open>wrapped = map2 wrap_text (modules b') bodies\<close>
    by blast
  have wt: \<open>wrap_text = (\<lambda>m bd. ''modules["'' @ uniqueIdentifier m @ ''"] = function()''
                @ [CHR 0x0A] @ bd @ [CHR 0x0A] @ ''end'')\<close>
    by (intro ext) (simp only: wrap_text_def)
  have o: \<open>out = [CHR 0x0A] @ ''local modules = {}'' @ [CHR 0x0A]
          @ ''local require = function(name)'' @ [CHR 0x0A]
          @ ''  return modules[name]()'' @ [CHR 0x0A]
          @ ''end'' @ [CHR 0x0A]
          @ join_nl (map2 (\<lambda>m bd. ''modules["'' @ uniqueIdentifier m @ ''"] = function()''
                @ [CHR 0x0A] @ bd @ [CHR 0x0A] @ ''end'') (modules b') bodies)
          @ [CHR 0x0A] @ body @ [CHR 0x0A]\<close>
    unfolding out w shim_def wt by (simp only: append_assoc)
  from main bs body o show ?thesis
    by (intro exI [of _ main] exI [of _ bodies] exI [of _ body] conjI)
qed

theorem bundle_output_structure_witness:
  \<open>bundle_lua 3 disk_xyz example_uuid (fresh ''/p/main.lua'' ''/p'', 0)
     = Some (Inr out_xyz, bundle_xyz, 2)
   \<and> (\<exists>main bodies body.
      readFileSync disk_xyz (mainFile (fresh ''/p/main.lua'' ''/p'')) = Some main
      \<and> list_all2 (\<lambda>m bd. remapRequires disk_xyz bundle_xyz (content m) = Inr bd)
           (modules bundle_xyz) bodies
      \<and> remapRequires disk_xyz bundle_xyz main = Inr body
      \<and> out_xyz = [CHR 0x0A] @ ''local modules = {}'' @ [CHR 0x0A]
          @ ''local require = function(name)'' @ [CHR 0x0A]
          @ ''  return modules[name]()'' @ [CHR 0x0A]
          @ ''end'' @ [CHR 0x0A]
          @ join_nl (map2 (\<lambda>m bd. ''modules["'' @ uniqueIdentifier m @ ''"] = function()''
                @ [CHR 0x0A] @ bd @ [CHR 0x0A] @ ''end'') (modules bundle_xyz) bodies)
          @ [CHR 0x0A] @ body @ [CHR 0x0A])\<close>
proof (rule conjI)
  show \<open>bundle_lua 3 disk_xyz example_uuid (fresh ''/p/main.lua'' ''/p'', 0)
     = Some (Inr out_xyz, bundle_xyz, 2)\<close>
    by (rule run_xyz)
  show \<open>\<exists>main bodies body.
      readFileSync disk_xyz (mainFile (fresh ''/p/main.lua'' ''/p'')) = Some main
      \<and> list_all2 (\<lambda>m bd. remapRequires disk_xyz bundle_xyz (content m) = Inr bd)
           (modules bundle_xyz) bodies
      \<and> remapRequires disk_xyz bundle_xyz main = Inr body
      \<and> out_xyz = [CHR 0x0A] @ ''local modules = {}'' @ [CHR 0x0A]
          @ ''local require = function(name)'' @ [CHR 0x0A]
          @ ''  return modules[name]()'' @ [CHR 0x0A]
          @ ''end'' @ [CHR 0x0A]
          @ join_nl (map2 (\<lambda>m bd. ''modules["'' @ uniqueIdentifier m @ ''"] = function()''
                @ [CHR 0x0A] @ bd @ [CHR 0x0A] @ ''end'') (modules bundle_xyz) bodies)
          @ [CHR 0x0A] @ body @ [CHR 0x0A]\<close>
    by (rule bundle_output_structure [OF run_xyz])
qed

subsection \<open>What remapRequires writes\<close>

lemma remap_site_Inr:
  assumes \<open>remap_site fs b cap = Inr p\<close>
  shows \<open>\<exists>rp m. resolveRequire fs (baseDir b) cap = Some rp
      \<and> find (\<lambda>m. path m = rp) (modules b) = Some m
      \<and> p = call_site (CHR 0x22) (uniqueIdentifier m) (CHR 0x22)\<close>
  using assms unfolding remap_site_def call_site_def
  by (auto split: option.splits)

lemma find_Some_set: \<open>find P xs = Some x \<Longrightarrow> x \<in> set xs \<and> P x\<close>
  by (induction xs) (auto split: if_splits)

lemma remapRequires_pieces:
  assumes \<open>remapRequires fs b s = Inr out\<close>
  shows \<open>\<exists>pieces. out = concat pieces
      \<and> list_all2 (\<lambda>g p. case g of Plain c \<Rightarrow> p = [c] | Site v cap \<Rightarrow> remap_site fs b cap = Inr p)
           (scan False s) pieces\<close>
  using assms unfolding remapRequires_def by (rule replace_segs_Inr)

text \<open>
  Claim C8, as the program has it. The text is its matches and the characters between them;
  \<open>remapRequires\<close> keeps the characters between the matches and puts for every match,
  a call \<open>require(\<close>, quote, reference, quote, \<open>)\<close>, the call \<open>require("\<close>,
  \<open>uniqueIdentifier\<close> of the found module, \<open>")\<close>: the reference is replaced by the
  identifier of the first module whose path is the path the reference resolves to, and both
  quotes become double quotes.
\<close>

theorem remapRequires_rewrites_whole_call:
  assumes \<open>remapRequires fs b s = Inr out\<close>
  shows \<open>\<exists>pieces. out = concat pieces \<and> s = concat (map seg_text (scan False s))
      \<and> list_all2 (site_rewritten fs b) (scan False s) pieces\<close>
proof -
  from remapRequires_pieces [OF assms] obtain pieces where out: \<open>out = concat pieces\<close>
    and all: \<open>list_all2 (\<lambda>g p. case g of Plain c \<Rightarrow> p = [c] | Site v cap \<Rightarrow> remap_site fs b cap = Inr p)
           (scan False s) pieces\<close> by blast
  have \<open>site_rewritten fs b g p\<close>
    if g: \<open>g \<in> set (scan False s)\<close>
      and p: \<open>case g of Plain c \<Rightarrow> p = [c] | Site v cap \<Rightarrow> remap_site fs b cap = Inr p\<close> for g p
  proof (cases g)
    case (Plain c)
    with p show ?thesis by (simp add: site_rewritten_def)
  next
    case (Site v cap)
    with g scan_site_exact obtain q1 q2 where q: \<open>is_quote q1\<close> \<open>is_quote q2\<close> \<open>v = call_site q1 cap q2\<close>
      by blast
    from p Site have \<open>remap_site fs b cap = Inr p\<close> by simp
    from remap_site_Inr [OF this] obtain rp m where
      \<open>resolveRequire fs (baseDir b) cap = Some rp\<close>
      \<open>find (\<lambda>m. path m = rp) (modules b) = Some m\<close>
      \<open>p = call_site (CHR 0x22) (uniqueIdentifier m) (CHR 0x22)\<close> by blast
    with q Site show ?thesis
      unfolding site_rewritten_def by auto
  qed
  with all have \<open>list_all2 (site_rewritten fs b) (scan False s) pieces\<close>
    by (rule list.rel_mono_strong)
  with out scan_concat [of False s] show ?thesis by auto
qed

theorem remapRequires_rewrites_whole_call_witness:
  \<open>remapRequires disk_twice bundle_twice ''return require('a..b') + 1'' = Inr ''return require("u") + 1''
   \<and> (\<exists>pieces. ''return require("u") + 1'' = concat pieces
        \<and> ''return require('a..b') + 1'' = concat (map seg_text (scan False ''return require('a..b') + 1''))
        \<and> list_all2 (site_rewritten disk_twice bundle_twice) (scan False ''return require('a..b') + 1'') pieces)\<close>
proof -
  have h: \<open>remapRequires disk_twice bundle_twice ''return require('a..b') + 1'' = Inr ''return require("u") + 1''\<close>
    by code_simp
  from remapRequires_rewrites_whole_call [OF h] h show ?thesis by (intro conjI)
qed

text \<open>
  Claim C8 as it is written fails for a call in single quotes: the quotes of the call are
  not kept.
\<close>

theorem remapRequires_changes_quotes:
  \<open>remapRequires disk_xyz bundle_xyz ''local x = require('x')'' = Inr ''local x = require("u")''
   \<and> remapRequires disk_xyz bundle_xyz ''local x = require('x')'' \<noteq> Inr ''local x = require('u')''\<close>
  by code_simp

subsection \<open>Calls that are not literal\<close>





lemma run_dyn:
  \<open>bundle_lua 2 disk_dyn example_uuid (fresh ''/p/main.lua'' ''/p'', 0)
     = Some (Inr out_dyn, bundle_dyn, 1)\<close>
  by code_simp
























subsection \<open>A reference that does not resolve\<close>








subsection \<open>The modules of a bundle\<close>

lemma set_first_occurrences: \<open>set (first_occurrences xs) = set xs\<close>
  by (induction xs rule: first_occurrences.induct) auto

lemma distinct_first_occurrences: \<open>distinct (first_occurrences xs)\<close>
  by (induction xs rule: first_occurrences.induct) (auto simp: set_first_occurrences)

lemma register_Cons_seen:
  \<open>list_ex (\<lambda>m. identifier_m m = lp) (modules b) \<Longrightarrow>
     register fs gen ((lp, rp) # rs) (b, k) = register fs gen rs (b, k)\<close>
  by simp

lemma register_Cons_new:
  \<open>\<not> list_ex (\<lambda>m. identifier_m m = lp) (modules b) \<Longrightarrow> readFileSync fs rp = Some c \<Longrightarrow>
     register fs gen ((lp, rp) # rs) (b, k) =
       register fs gen rs
         (b\<lparr>modules := modules b @ [\<lparr>identifier_m = lp, path = rp, uniqueIdentifier = gen k, content = c\<rparr>]\<rparr>,
          Suc k)\<close>
  by (simp add: LuaModule_new_def)

lemma register_Cons_unreadable:
  \<open>\<not> list_ex (\<lambda>m. identifier_m m = lp) (modules b) \<Longrightarrow> readFileSync fs rp = None \<Longrightarrow>
     register fs gen ((lp, rp) # rs) (b, k) = ((b, k), Some (FsError rp))\<close>
  by simp

lemma register_identifiers:
  assumes \<open>\<forall>(lp, rp) \<in> set rs. readFileSync fs rp \<noteq> None\<close>
    and \<open>register fs gen rs (b, k) = ((b', k'), e)\<close>
  shows \<open>e = None \<and> map identifier_m (modules b')
      = map identifier_m (modules b)
        @ first_occurrences (filter (\<lambda>r. r \<notin> set (map identifier_m (modules b))) (map fst rs))\<close>
  using assms
proof (induction rs arbitrary: b k)
  case Nil
  then show ?case by simp
next
  case (Cons x rs)
  obtain lp rp where x: \<open>x = (lp, rp)\<close> by (cases x)
  from Cons.prems(1) have rest: \<open>\<forall>(lp, rp) \<in> set rs. readFileSync fs rp \<noteq> None\<close> by simp
  show ?case
  proof (cases \<open>list_ex (\<lambda>m. identifier_m m = lp) (modules b)\<close>)
    case True
    then have \<open>lp \<in> set (map identifier_m (modules b))\<close> by (auto simp: list_ex_iff)
    moreover from True Cons.prems(2) x have \<open>register fs gen rs (b, k) = ((b', k'), e)\<close>
      by simp
    ultimately show ?thesis using Cons.IH [OF rest] x by simp
  next
    case False
    then have notin: \<open>lp \<notin> set (map identifier_m (modules b))\<close> by (auto simp: list_ex_iff)
    from Cons.prems(1) x obtain c where c: \<open>readFileSync fs rp = Some c\<close> by auto
    define b1 where \<open>b1 = b\<lparr>modules := modules b
        @ [\<lparr>identifier_m = lp, path = rp, uniqueIdentifier = gen k, content = c\<rparr>]\<rparr>\<close>
    from register_Cons_new [OF False c, of gen rs k] Cons.prems(2) x
    have \<open>register fs gen rs (b1, Suc k) = ((b', k'), e)\<close>
      unfolding b1_def by simp
    from Cons.IH [OF rest this]
    have e: \<open>e = None\<close> and ids: \<open>map identifier_m (modules b')
      = map identifier_m (modules b1)
        @ first_occurrences (filter (\<lambda>r. r \<notin> set (map identifier_m (modules b1))) (map fst rs))\<close>
      by simp_all
    have m1: \<open>map identifier_m (modules b1) = map identifier_m (modules b) @ [lp]\<close>
      by (simp add: b1_def)
    have \<open>filter (\<lambda>r. r \<notin> set (map identifier_m (modules b1))) (map fst rs)
        = filter (\<lambda>y. y \<noteq> lp) (filter (\<lambda>r. r \<notin> set (map identifier_m (modules b))) (map fst rs))\<close>
      unfolding m1 by (auto intro: filter_cong)
    with ids m1 notin x e show ?thesis by simp
  qed
qed

lemma register_modules_sound:
  assumes \<open>register fs gen rs (b, k) = ((b', k'), e)\<close>
    and \<open>m \<in> set (modules b')\<close>
  shows \<open>m \<in> set (modules b) \<or>
     ((identifier_m m, path m) \<in> set rs \<and> readFileSync fs (path m) = Some (content m))\<close>
  using assms
proof (induction rs arbitrary: b k)
  case Nil
  then show ?case by simp
next
  case (Cons x rs)
  obtain lp rp where x: \<open>x = (lp, rp)\<close> by (cases x)
  show ?case
  proof (cases \<open>list_ex (\<lambda>m. identifier_m m = lp) (modules b)\<close>)
    case True
    with Cons.prems(1) x have \<open>register fs gen rs (b, k) = ((b', k'), e)\<close>
      by simp
    from Cons.IH [OF this Cons.prems(2)] show ?thesis by auto
  next
    case False
    show ?thesis
    proof (cases \<open>readFileSync fs rp\<close>)
      case None
      with False Cons.prems x show ?thesis by simp
    next
      case (Some c)
      define b1 where \<open>b1 = b\<lparr>modules := modules b
          @ [\<lparr>identifier_m = lp, path = rp, uniqueIdentifier = gen k, content = c\<rparr>]\<rparr>\<close>
      from register_Cons_new [OF False Some, of gen rs k] Cons.prems(1) x
      have \<open>register fs gen rs (b1, Suc k) = ((b', k'), e)\<close>
        unfolding b1_def by simp
      from Cons.IH [OF this Cons.prems(2)] Some x show ?thesis
        by (auto simp: b1_def)
    qed
  qed
qed

lemma register_uid_inv:
  assumes \<open>inj gen\<close>
    and \<open>register fs gen rs (b, k) = ((b', k'), e)\<close>
    and \<open>distinct (map uniqueIdentifier (modules b))\<close>
    and \<open>set (map uniqueIdentifier (modules b)) \<subseteq> gen ` {..<k}\<close>
  shows \<open>distinct (map uniqueIdentifier (modules b'))
     \<and> set (map uniqueIdentifier (modules b')) \<subseteq> gen ` {..<k'}\<close>
  using assms(2-)
proof (induction rs arbitrary: b k)
  case Nil
  then show ?case by simp
next
  case (Cons x rs)
  obtain lp rp where x: \<open>x = (lp, rp)\<close> by (cases x)
  show ?case
  proof (cases \<open>list_ex (\<lambda>m. identifier_m m = lp) (modules b)\<close>)
    case True
    with Cons.prems(1) x have \<open>register fs gen rs (b, k) = ((b', k'), e)\<close>
      by simp
    from Cons.IH [OF this Cons.prems(2,3)] show ?thesis .
  next
    case False
    show ?thesis
    proof (cases \<open>readFileSync fs rp\<close>)
      case None
      with False Cons.prems x show ?thesis by simp
    next
      case (Some c)
      define b1 where \<open>b1 = b\<lparr>modules := modules b
          @ [\<lparr>identifier_m = lp, path = rp, uniqueIdentifier = gen k, content = c\<rparr>]\<rparr>\<close>
      from register_Cons_new [OF False Some, of gen rs k] Cons.prems(1) x
      have r: \<open>register fs gen rs (b1, Suc k) = ((b', k'), e)\<close>
        unfolding b1_def by simp
      have \<open>gen k \<notin> gen ` {..<k}\<close>
        using assms(1) by (auto simp: inj_def)
      with Cons.prems(2,3) have d: \<open>distinct (map uniqueIdentifier (modules b1))\<close>
        by (auto simp: b1_def)
      from Cons.prems(3) have s: \<open>set (map uniqueIdentifier (modules b1)) \<subseteq> gen ` {..<Suc k}\<close>
        by (auto simp: b1_def lessThan_Suc)
      from Cons.IH [OF r d s] show ?thesis .
    qed
  qed
qed

lemma register_append:
  \<open>register fs gen (xs @ ys) (b, k) =
     (case register fs gen xs (b, k) of
        ((b1, k1), None) \<Rightarrow> register fs gen ys (b1, k1)
      | ((b1, k1), Some e) \<Rightarrow> ((b1, k1), Some e))\<close>
proof (induction xs arbitrary: b k)
  case Nil
  then show ?case by simp
next
  case (Cons x xs)
  obtain lp rp where x: \<open>x = (lp, rp)\<close> by (cases x)
  with Cons show ?case
    by (simp add: LuaModule_new_def split: option.splits)
qed

lemma bundle_lua_modules:
  assumes \<open>bundle_lua fuel fs gen (b, k) = Some (res, b', k')\<close>
  shows \<open>(b', k') = (b, k) \<or> (\<exists>main reqs. readFileSync fs (mainFile b) = Some main
      \<and> getRequires fuel fs (baseDir b) main = Some (Inr reqs)
      \<and> fst (register fs gen reqs (b, k)) = (b', k'))\<close>
  using assms unfolding bundle_lua_def
  by (auto split: option.splits sum.splits prod.splits)

lemma requires_xyz:
  \<open>getRequires 3 disk_xyz ''/p''
      (''local x = require("x")'' @ [CHR 0x0A] @ ''return require('y.z')'')
     = Some (Inr [(''x'', ''/p/x.lua''), (''y.z'', ''/p/y/z.luau''), (''y.z'', ''/p/y/z.luau'')])\<close>
  by code_simp

lemma inj_example_uuid: \<open>inj example_uuid\<close>
proof (rule injI)
  fix x y
  assume \<open>example_uuid x = example_uuid y\<close>
  then have \<open>length (example_uuid x) = length (example_uuid y)\<close> by simp
  then show \<open>x = y\<close> by (simp add: example_uuid_def)
qed

lemma collect_unresolved:
  \<open>\<forall>v \<in> set vs. resolveRequire fs base (extract_luaPath v) = None \<Longrightarrow>
     collect fs base rec vs = Some (Inr [])\<close>
  by (induction vs) auto

lemma resolved_requires_Nil:
  \<open>resolved_requires fs base s = [] \<Longrightarrow>
     \<forall>v \<in> set (req_matches s). resolveRequire fs base (extract_luaPath v) = None\<close>
  by (auto simp: resolved_requires_def map_filter_def filter_empty_conv)

lemma getRequires_leaf:
  assumes \<open>resolved_requires fs base s = []\<close> and \<open>getRequires n fs base s = Some (Inr d)\<close>
  shows \<open>d = []\<close>
proof (cases n)
  case 0
  with assms(2) show ?thesis by simp
next
  case (Suc n')
  with assms(2) collect_unresolved [OF resolved_requires_Nil [OF assms(1)], of \<open>getRequires n' fs base\<close>]
  show ?thesis by simp
qed

lemma getRequires_two_leaves:
  assumes gr: \<open>getRequires fuel fs base main = Some (Inr reqs)\<close>
    and ms: \<open>map extract_luaPath (req_matches main) = [X, Y]\<close>
    and rx: \<open>resolveRequire fs base X = Some px\<close> and ry: \<open>resolveRequire fs base Y = Some py\<close>
    and cx: \<open>readFileSync fs px = Some cx\<close> and cy: \<open>readFileSync fs py = Some cy\<close>
    and lx: \<open>resolved_requires fs base cx = []\<close> and ly: \<open>resolved_requires fs base cy = []\<close>
  shows \<open>reqs = [(X, px), (Y, py)]\<close>
proof -
  from gr obtain n where fuel: \<open>fuel = Suc n\<close> by (cases fuel) auto
  from ms obtain vx vy where vs: \<open>req_matches main = [vx, vy]\<close>
    \<open>extract_luaPath vx = X\<close> \<open>extract_luaPath vy = Y\<close> by auto
  define rec where \<open>rec = getRequires n fs base\<close>
  from gr fuel vs(1) have c: \<open>collect fs base rec [vx, vy] = Some (Inr reqs)\<close>
    by (simp add: rec_def)
  have leaf: \<open>d = []\<close> if \<open>rec cx = Some (Inr d) \<or> rec cy = Some (Inr d)\<close> for d
    using that getRequires_leaf [OF lx] getRequires_leaf [OF ly] unfolding rec_def by blast
  from c vs(2,3) rx ry cx cy obtain dx dy where
    \<open>rec cx = Some (Inr dx)\<close> \<open>rec cy = Some (Inr dy)\<close> \<open>reqs = (X, px) # dx @ (Y, py) # dy @ []\<close>
    by (auto simp: Let_def split: option.splits sum.splits)
  with leaf show ?thesis by auto
qed

lemma run_xzy:
  \<open>getRequires 3 disk_xzy ''/p'' ''require("x") require("y")''
     = Some (Inr [(''x'', ''/p/x.lua''), (''z'', ''/p/z.lua''), (''y'', ''/p/y.lua'')])\<close>
  by code_simp

text \<open>
  Claim C2, as the program has it. On a bundle as the constructor makes it, with the pairs
  \<open>reqs\<close> that \<open>getRequires\<close> returns for the entry script, \<open>bundle\<close> leaves the
  modules whose references are the references of \<open>reqs\<close> in the order in which they first
  occur, each once: a pair whose reference a module has already is passed over, whatever its
  path. Every module has the path of a pair with its reference and the content of the file
  at that path. When \<open>reqs\<close> is two pairs with different references \<open>X\<close> and \<open>Y\<close>, the
  modules are those of \<open>X\<close> and \<open>Y\<close>, in this order; this is so for an entry script
  whose matches are the calls of \<open>X\<close> and then \<open>Y\<close>, both resolving to files none of
  whose matches resolves.
\<close>

theorem modules_one_per_reference:
  assumes \<open>modules b = []\<close>
    and \<open>readFileSync fs (mainFile b) = Some main\<close>
    and \<open>getRequires fuel fs (baseDir b) main = Some (Inr reqs)\<close>
    and \<open>bundle_lua fuel fs gen (b, k) = Some (res, b', k')\<close>
  shows \<open>map identifier_m (modules b') = first_occurrences (map fst reqs)
     \<and> distinct (map identifier_m (modules b'))
     \<and> set (map identifier_m (modules b')) = fst ` set reqs
     \<and> (\<forall>m \<in> set (modules b'). (identifier_m m, path m) \<in> set reqs
           \<and> readFileSync fs (path m) = Some (content m))
     \<and> (\<forall>X Y px py. reqs = [(X, px), (Y, py)] \<and> X \<noteq> Y \<longrightarrow>
           map identifier_m (modules b') = [X, Y])
     \<and> (\<forall>X Y px py cx cy.
           map extract_luaPath (req_matches main) = [X, Y] \<and> X \<noteq> Y
           \<and> resolveRequire fs (baseDir b) X = Some px \<and> resolveRequire fs (baseDir b) Y = Some py
           \<and> readFileSync fs px = Some cx \<and> readFileSync fs py = Some cy
           \<and> resolved_requires fs (baseDir b) cx = [] \<and> resolved_requires fs (baseDir b) cy = []
           \<longrightarrow> map identifier_m (modules b') = [X, Y] \<and> map path (modules b') = [px, py]
               \<and> length (modules b') = 2)\<close>
proof -
  from bundle_lua_state [OF assms(4,2,3)]
  have reg: \<open>register fs gen reqs (b, k) = ((b', k'), snd (register fs gen reqs (b, k)))\<close>
    by (metis prod.collapse)
  from getRequires_sound [OF assms(3)]
  have readable: \<open>\<forall>(lp, rp) \<in> set reqs. readFileSync fs rp \<noteq> None\<close> by auto
  from register_identifiers [OF readable reg] assms(1)
  have ids: \<open>map identifier_m (modules b') = first_occurrences (map fst reqs)\<close> by simp
  have sound: \<open>\<forall>m \<in> set (modules b'). (identifier_m m, path m) \<in> set reqs
           \<and> readFileSync fs (path m) = Some (content m)\<close>
    using register_modules_sound [OF reg] assms(1) by auto
  have two: \<open>\<forall>X Y px py. reqs = [(X, px), (Y, py)] \<and> X \<noteq> Y \<longrightarrow>
           map identifier_m (modules b') = [X, Y]\<close>
    unfolding ids by auto
  have leaves: \<open>map identifier_m (modules b') = [X, Y] \<and> map path (modules b') = [px, py]
      \<and> length (modules b') = 2\<close>
    if h: \<open>map extract_luaPath (req_matches main) = [X, Y] \<and> X \<noteq> Y
           \<and> resolveRequire fs (baseDir b) X = Some px \<and> resolveRequire fs (baseDir b) Y = Some py
           \<and> readFileSync fs px = Some cx \<and> readFileSync fs py = Some cy
           \<and> resolved_requires fs (baseDir b) cx = [] \<and> resolved_requires fs (baseDir b) cy = []\<close>
    for X Y px py cx cy
  proof -
    from h have h1: \<open>map extract_luaPath (req_matches main) = [X, Y]\<close> and ne: \<open>X \<noteq> Y\<close>
      and h2: \<open>resolveRequire fs (baseDir b) X = Some px\<close>
      and h3: \<open>resolveRequire fs (baseDir b) Y = Some py\<close>
      and h4: \<open>readFileSync fs px = Some cx\<close> and h5: \<open>readFileSync fs py = Some cy\<close>
      and h6: \<open>resolved_requires fs (baseDir b) cx = []\<close>
      and h7: \<open>resolved_requires fs (baseDir b) cy = []\<close>
      by simp_all
    have r: \<open>reqs = [(X, px), (Y, py)]\<close>
      by (rule getRequires_two_leaves [OF assms(3) h1 h2 h3 h4 h5 h6 h7])
    with ne two have i: \<open>map identifier_m (modules b') = [X, Y]\<close> by simp
    then obtain m1 m2 where m: \<open>modules b' = [m1, m2]\<close> \<open>identifier_m m1 = X\<close> \<open>identifier_m m2 = Y\<close>
      by auto
    from sound have \<open>(identifier_m m1, path m1) \<in> set reqs\<close> \<open>(identifier_m m2, path m2) \<in> set reqs\<close>
      unfolding m(1) by simp_all
    with m(2,3) ne have \<open>path m1 = px\<close> \<open>path m2 = py\<close> unfolding r by auto
    with i m(1) show ?thesis by simp
  qed
  then have leaves': \<open>\<forall>X Y px py cx cy.
           map extract_luaPath (req_matches main) = [X, Y] \<and> X \<noteq> Y
           \<and> resolveRequire fs (baseDir b) X = Some px \<and> resolveRequire fs (baseDir b) Y = Some py
           \<and> readFileSync fs px = Some cx \<and> readFileSync fs py = Some cy
           \<and> resolved_requires fs (baseDir b) cx = [] \<and> resolved_requires fs (baseDir b) cy = []
           \<longrightarrow> map identifier_m (modules b') = [X, Y] \<and> map path (modules b') = [px, py]
               \<and> length (modules b') = 2\<close>
    by (intro allI impI)
  have d: \<open>distinct (map identifier_m (modules b'))\<close>
    unfolding ids by (rule distinct_first_occurrences)
  have st: \<open>set (map identifier_m (modules b')) = fst ` set reqs\<close>
    unfolding ids by (simp add: set_first_occurrences)
  from ids d st sound two leaves' show ?thesis by (intro conjI)
qed

theorem modules_one_per_reference_witness:
  \<open>getRequires 3 disk_xyz ''/p''
      (''local x = require("x")'' @ [CHR 0x0A] @ ''return require('y.z')'')
     = Some (Inr [(''x'', ''/p/x.lua''), (''y.z'', ''/p/y/z.luau''), (''y.z'', ''/p/y/z.luau'')])
   \<and> map identifier_m (modules bundle_xyz) = [''x'', ''y.z'']
   \<and> map extract_luaPath (req_matches ''require("a.b") require("a..b")'') = [''a.b'', ''a..b'']
   \<and> map identifier_m (modules bundle_twice) = [''a.b'', ''a..b'']
   \<and> map path (modules bundle_twice) = [''/p/a/b.lua'', ''/p/a/b.lua'']
   \<and> length (modules bundle_twice) = 2\<close>
proof -
  have m: \<open>modules (fresh ''/p/main.lua'' ''/p'') = []\<close> by (simp add: fresh_def)
  have b: \<open>baseDir (fresh ''/p/main.lua'' ''/p'') = ''/p''\<close> by (simp add: fresh_def)
  have rd: \<open>readFileSync disk_xyz (mainFile (fresh ''/p/main.lua'' ''/p''))
      = Some (''local x = require("x")'' @ [CHR 0x0A] @ ''return require('y.z')'')\<close>
    by code_simp
  have gr: \<open>getRequires 3 disk_xyz (baseDir (fresh ''/p/main.lua'' ''/p''))
      (''local x = require("x")'' @ [CHR 0x0A] @ ''return require('y.z')'')
     = Some (Inr [(''x'', ''/p/x.lua''), (''y.z'', ''/p/y/z.luau''), (''y.z'', ''/p/y/z.luau'')])\<close>
    using requires_xyz unfolding b .
  have fo: \<open>first_occurrences (map fst [(''x'', ''/p/x.lua''), (''y.z'', ''/p/y/z.luau''),
      (''y.z'', ''/p/y/z.luau'')]) = [''x'', ''y.z'']\<close>
    by simp
  from modules_one_per_reference [OF m rd gr run_xyz]
  have \<open>map identifier_m (modules bundle_xyz) = first_occurrences (map fst [(''x'', ''/p/x.lua''),
      (''y.z'', ''/p/y/z.luau''), (''y.z'', ''/p/y/z.luau'')])\<close>
    by (rule conjunct1)
  with fo have 1: \<open>map identifier_m (modules bundle_xyz) = [''x'', ''y.z'']\<close> by simp
  have rd2: \<open>readFileSync disk_twice (mainFile (fresh ''/p/main.lua'' ''/p''))
      = Some ''require("a.b") require("a..b")''\<close>
    by code_simp
  have gr2: \<open>getRequires 2 disk_twice (baseDir (fresh ''/p/main.lua'' ''/p''))
      ''require("a.b") require("a..b")''
     = Some (Inr [(''a.b'', ''/p/a/b.lua''), (''a..b'', ''/p/a/b.lua'')])\<close>
    unfolding b by code_simp
  have h: \<open>map extract_luaPath (req_matches ''require("a.b") require("a..b")'') = [''a.b'', ''a..b'']
      \<and> ''a.b'' \<noteq> ''a..b''
      \<and> resolveRequire disk_twice (baseDir (fresh ''/p/main.lua'' ''/p'')) ''a.b'' = Some ''/p/a/b.lua''
      \<and> resolveRequire disk_twice (baseDir (fresh ''/p/main.lua'' ''/p'')) ''a..b'' = Some ''/p/a/b.lua''
      \<and> readFileSync disk_twice ''/p/a/b.lua'' = Some ''return 1''
      \<and> readFileSync disk_twice ''/p/a/b.lua'' = Some ''return 1''
      \<and> resolved_requires disk_twice (baseDir (fresh ''/p/main.lua'' ''/p'')) ''return 1'' = []
      \<and> resolved_requires disk_twice (baseDir (fresh ''/p/main.lua'' ''/p'')) ''return 1'' = []\<close>
    unfolding b by code_simp
  note t = modules_one_per_reference [OF m rd2 gr2 run_twice]
  have 2: \<open>map identifier_m (modules bundle_twice) = [''a.b'', ''a..b'']
      \<and> map path (modules bundle_twice) = [''/p/a/b.lua'', ''/p/a/b.lua'']
      \<and> length (modules bundle_twice) = 2\<close>
    by (rule t [THEN conjunct2, THEN conjunct2, THEN conjunct2, THEN conjunct2, THEN conjunct2,
          rule_format, OF h])
  from requires_xyz 1 h [THEN conjunct1] 2 [THEN conjunct1] 2 [THEN conjunct2, THEN conjunct1]
    2 [THEN conjunct2, THEN conjunct2]
  show ?thesis by (intro conjI)
qed

text \<open>
  Claim C2 as it is written fails in its last sentence: an entry script that requires
  \<open>x\<close> and then \<open>y\<close>, which share no dependency, has three modules when \<open>x\<close> requires
  \<open>z\<close>, the module of \<open>z\<close> between those of \<open>x\<close> and \<open>y\<close>.
\<close>

theorem modules_follow_dependencies:
  \<open>getRequires 3 disk_xzy ''/p'' ''require("x") require("y")''
     = Some (Inr [(''x'', ''/p/x.lua''), (''z'', ''/p/z.lua''), (''y'', ''/p/y.lua'')])
   \<and> map_option (\<lambda>(r, b, k). map identifier_m (modules b))
        (bundle_lua 3 disk_xzy example_uuid (fresh ''/p/main.lua'' ''/p'', 0))
      = Some [''x'', ''z'', ''y'']
   \<and> map_option (\<lambda>(r, b, k). length (modules b))
        (bundle_lua 3 disk_xzy example_uuid (fresh ''/p/main.lua'' ''/p'', 0))
      = Some 3\<close>
  by code_simp

text \<open>
  Claim C9. \<open>randomUUID\<close> is taken not to return a value twice (\<open>gen\<close> is injective). On a
  bundle as the constructor makes it, the \<open>uniqueIdentifier\<close>s of the modules are pairwise
  distinct after every number of rounds of the loop that registers the modules, and in the
  state that \<open>bundle\<close> leaves, whether it returns or throws.
\<close>

theorem uniqueIdentifiers_distinct:
  assumes \<open>inj gen\<close> and \<open>modules b = []\<close>
  shows \<open>(\<forall>n. distinct (map uniqueIdentifier (modules (fst (fst (register fs gen (take n reqs) (b, k)))))))
     \<and> (\<forall>fuel res b' k'. bundle_lua fuel fs gen (b, k) = Some (res, b', k') \<longrightarrow>
           distinct (map uniqueIdentifier (modules b')))\<close>
proof -
  have reg: \<open>distinct (map uniqueIdentifier (modules (fst (fst (register fs gen rs (b, k))))))\<close> for rs
  proof -
    obtain b1 k1 e where r: \<open>register fs gen rs (b, k) = ((b1, k1), e)\<close>
      by (metis prod.collapse)
    from register_uid_inv [OF assms(1) r] assms(2) r show ?thesis by simp
  qed
  have \<open>distinct (map uniqueIdentifier (modules b'))\<close>
    if \<open>bundle_lua fuel fs gen (b, k) = Some (res, b', k')\<close> for fuel res b' k'
  proof -
    from bundle_lua_modules [OF that] consider \<open>b' = b\<close>
      | reqs where \<open>fst (register fs gen reqs (b, k)) = (b', k')\<close> by auto
    then show ?thesis
    proof cases
      case 1
      with assms(2) show ?thesis by simp
    next
      case 2
      with reg [of reqs] show ?thesis by simp
    qed
  qed
  with reg show ?thesis by blast
qed

theorem uniqueIdentifiers_distinct_witness:
  \<open>inj example_uuid \<and> modules (fresh ''/p/main.lua'' ''/p'') = []
   \<and> map uniqueIdentifier (modules bundle_xyz) = [''u'', ''u+'']
   \<and> distinct (map uniqueIdentifier (modules bundle_xyz))\<close>
proof -
  have m: \<open>modules (fresh ''/p/main.lua'' ''/p'') = []\<close> by (simp add: fresh_def)
  from uniqueIdentifiers_distinct [OF inj_example_uuid m, of disk_xyz \<open>[]\<close> 0] run_xyz
  have \<open>distinct (map uniqueIdentifier (modules bundle_xyz))\<close> by blast
  with inj_example_uuid m show ?thesis by (simp add: bundle_xyz_def)
qed

subsection \<open>Two modules of one file\<close>







subsection \<open>Termination\<close>

lemma in_resolved_requires:
  \<open>q \<in> set (resolved_requires fs base s) \<longleftrightarrow>
     (\<exists>v \<in> set (req_matches s). resolveRequire fs base (extract_luaPath v) = Some q)\<close>
  by (force simp: resolved_requires_def map_filter_def)

lemma resolveRequire_exists: \<open>resolveRequire fs base v = Some q \<Longrightarrow> existsSync fs q\<close>
  by (auto simp: resolveRequire_def Let_def split: if_splits)

lemma resolved_requires_exist: \<open>q \<in> set (resolved_requires fs base s) \<Longrightarrow> existsSync fs q\<close>
  by (auto simp: in_resolved_requires dest: resolveRequire_exists)

lemma reachable_files_exist: \<open>q \<in> reachable_files fs base s \<Longrightarrow> existsSync fs q\<close>
proof -
  assume \<open>q \<in> reachable_files fs base s\<close>
  then obtain p where p: \<open>p \<in> set (resolved_requires fs base s)\<close>
    and pq: \<open>(p, q) \<in> (requires_rel fs base)\<^sup>*\<close>
    by (auto simp: reachable_files_def)
  from pq p show ?thesis
  proof (induction rule: rtrancl_induct)
    case base
    then show ?case by (rule resolved_requires_exist)
  next
    case (step y z)
    then show ?case by (auto simp: requires_rel_def dest: resolved_requires_exist)
  qed
qed

lemma reachable_files_step:
  \<open>p \<in> reachable_files fs base s \<Longrightarrow> (p, q) \<in> requires_rel fs base \<Longrightarrow>
     q \<in> reachable_files fs base s\<close>
  unfolding reachable_files_def by (auto intro: rtrancl_into_rtrancl)

lemma uniform_bound:
  \<open>\<forall>x \<in> set xs. \<exists>n. \<forall>m\<ge>n. P x (m::nat) \<Longrightarrow> \<exists>n. \<forall>m\<ge>n. \<forall>x \<in> set xs. P x m\<close>
proof (induction xs)
  case Nil
  then show ?case by simp
next
  case (Cons x xs)
  then obtain n1 where n1: \<open>\<forall>m\<ge>n1. \<forall>x \<in> set xs. P x m\<close> by auto
  from Cons.prems obtain n2 where n2: \<open>\<forall>m\<ge>n2. P x m\<close> by auto
  from n1 n2 have \<open>\<forall>m\<ge>max n1 n2. \<forall>y \<in> set (x # xs). P y m\<close> by auto
  then show ?case by blast
qed

lemma collect_returns:
  assumes \<open>\<And>v q c. v \<in> set vs \<Longrightarrow> resolveRequire fs base (extract_luaPath v) = Some q \<Longrightarrow>
      readFileSync fs q = Some c \<Longrightarrow> rec c \<noteq> None\<close>
  shows \<open>collect fs base rec vs \<noteq> None\<close>
  using assms
proof (induction vs)
  case Nil
  then show ?case by simp
next
  case (Cons v vs)
  have rest: \<open>collect fs base rec vs \<noteq> None\<close>
  proof (rule Cons.IH)
    fix v' q c
    assume \<open>v' \<in> set vs\<close> \<open>resolveRequire fs base (extract_luaPath v') = Some q\<close>
      \<open>readFileSync fs q = Some c\<close>
    then show \<open>rec c \<noteq> None\<close> using Cons.prems [of v' q c] by simp
  qed
  show ?case
  proof (cases \<open>resolveRequire fs base (extract_luaPath v)\<close>)
    case None
    with rest show ?thesis by simp
  next
    case (Some q)
    show ?thesis
    proof (cases \<open>readFileSync fs q\<close>)
      case None
      with Some show ?thesis by simp
    next
      case c: (Some c)
      from Cons.prems [of v q c] Some c have \<open>rec c \<noteq> None\<close> by simp
      with rest Some c show ?thesis
        by (auto simp: Let_def split: option.splits sum.splits)
    qed
  qed
qed

lemma getRequires_returns_step:
  assumes \<open>\<forall>q \<in> set (resolved_requires fs base s). \<forall>c. readFileSync fs q = Some c \<longrightarrow>
      (\<exists>n. \<forall>m\<ge>n. getRequires m fs base c \<noteq> None)\<close>
  shows \<open>\<exists>n. \<forall>m\<ge>n. getRequires m fs base s \<noteq> None\<close>
proof -
  have \<open>\<forall>q \<in> set (resolved_requires fs base s).
      \<exists>n. \<forall>m\<ge>n. (\<forall>c. readFileSync fs q = Some c \<longrightarrow> getRequires m fs base c \<noteq> None)\<close>
  proof
    fix q
    assume q: \<open>q \<in> set (resolved_requires fs base s)\<close>
    show \<open>\<exists>n. \<forall>m\<ge>n. (\<forall>c. readFileSync fs q = Some c \<longrightarrow> getRequires m fs base c \<noteq> None)\<close>
    proof (cases \<open>readFileSync fs q\<close>)
      case None
      then show ?thesis by simp
    next
      case (Some c)
      with assms q obtain n where \<open>\<forall>m\<ge>n. getRequires m fs base c \<noteq> None\<close> by blast
      with Some show ?thesis by auto
    qed
  qed
  from uniform_bound [OF this] obtain n where
    n: \<open>\<forall>m\<ge>n. \<forall>q \<in> set (resolved_requires fs base s).
      \<forall>c. readFileSync fs q = Some c \<longrightarrow> getRequires m fs base c \<noteq> None\<close> by blast
  have \<open>getRequires m fs base s \<noteq> None\<close> if \<open>m \<ge> Suc n\<close> for m
  proof -
    from that obtain m' where m': \<open>m = Suc m'\<close> \<open>m' \<ge> n\<close> by (cases m) auto
    have \<open>collect fs base (getRequires m' fs base) (req_matches s) \<noteq> None\<close>
    proof (rule collect_returns)
      fix v q c
      assume \<open>v \<in> set (req_matches s)\<close> \<open>resolveRequire fs base (extract_luaPath v) = Some q\<close>
        \<open>readFileSync fs q = Some c\<close>
      then have \<open>q \<in> set (resolved_requires fs base s)\<close> \<open>readFileSync fs q = Some c\<close>
        unfolding in_resolved_requires by blast+
      with n m'(2) show \<open>getRequires m' fs base c \<noteq> None\<close> by blast
    qed
    with m'(1) show ?thesis by simp
  qed
  then show ?thesis by blast
qed

lemma bundle_lua_None:
  \<open>bundle_lua fuel fs gen (b, k) = None \<longleftrightarrow>
     (\<exists>main. readFileSync fs (mainFile b) = Some main \<and> getRequires fuel fs (baseDir b) main = None)\<close>
  unfolding bundle_lua_def
  by (auto split: option.splits sum.splits prod.splits)

lemma getRequires_returns:
  assumes fin: \<open>finite {p. existsSync fs p}\<close>
    and acyc: \<open>acyclic (Restr (requires_rel fs base) (reachable_files fs base s))\<close>
  shows \<open>\<exists>n. \<forall>m\<ge>n. getRequires m fs base s \<noteq> None\<close>
proof -
  define R where \<open>R = reachable_files fs base s\<close>
  define r where \<open>r = Restr (requires_rel fs base) R\<close>
  have \<open>R \<subseteq> {p. existsSync fs p}\<close>
    unfolding R_def by (auto dest: reachable_files_exist)
  with fin have \<open>finite R\<close> by (rule rev_finite_subset)
  then have \<open>finite r\<close> unfolding r_def by (auto intro: finite_subset [of _ \<open>R \<times> R\<close>])
  with acyc have wf: \<open>wf (r\<inverse>)\<close> unfolding r_def R_def by (intro finite_acyclic_wf_converse)
  have files: \<open>p \<in> R \<longrightarrow> (\<forall>c. readFileSync fs p = Some c \<longrightarrow>
      (\<exists>n. \<forall>m\<ge>n. getRequires m fs base c \<noteq> None))\<close> for p
    using wf
  proof (induction p rule: wf_induct_rule)
    case (less p)
    show ?case
    proof (intro impI allI)
      fix c
      assume p: \<open>p \<in> R\<close> and c: \<open>readFileSync fs p = Some c\<close>
      show \<open>\<exists>n. \<forall>m\<ge>n. getRequires m fs base c \<noteq> None\<close>
      proof (rule getRequires_returns_step, intro ballI allI impI)
        fix q c'
        assume q: \<open>q \<in> set (resolved_requires fs base c)\<close> and c': \<open>readFileSync fs q = Some c'\<close>
        from c q have pq: \<open>(p, q) \<in> requires_rel fs base\<close> by (auto simp: requires_rel_def)
        with p have qR: \<open>q \<in> R\<close> unfolding R_def by (auto intro: reachable_files_step)
        with p pq have \<open>(q, p) \<in> r\<inverse>\<close> by (simp add: r_def)
        from less [OF this] qR c' show \<open>\<exists>n. \<forall>m\<ge>n. getRequires m fs base c' \<noteq> None\<close> by blast
      qed
    qed
  qed
  show ?thesis
  proof (rule getRequires_returns_step, intro ballI allI impI)
    fix q c
    assume q: \<open>q \<in> set (resolved_requires fs base s)\<close> and c: \<open>readFileSync fs q = Some c\<close>
    from q have \<open>q \<in> R\<close> by (auto simp: R_def reachable_files_def)
    with files c show \<open>\<exists>n. \<forall>m\<ge>n. getRequires m fs base c \<noteq> None\<close> by blast
  qed
qed

lemma read_disk_xyz:
  \<open>readFileSync disk_xyz p = Some c \<Longrightarrow>
     (p = ''/p/main.lua'' \<and> c = ''local x = require("x")'' @ [CHR 0x0A] @ ''return require('y.z')'')
     \<or> (p = ''/p/x.lua'' \<and> c = ''return require("y.z")'')
     \<or> (p = ''/p/y/z.luau'' \<and> c = ''return 1'')\<close>
  by (simp add: disk_xyz_def disk_def split: if_splits)

lemma resolved_requires_xyz:
  \<open>resolved_requires disk_xyz ''/p'' (''local x = require("x")'' @ [CHR 0x0A] @ ''return require('y.z')'')
     = [''/p/x.lua'', ''/p/y/z.luau'']\<close>
  \<open>resolved_requires disk_xyz ''/p'' ''return require("y.z")'' = [''/p/y/z.luau'']\<close>
  \<open>resolved_requires disk_xyz ''/p'' ''return 1'' = []\<close>
  by code_simp+

lemma requires_rel_xyz:
  \<open>requires_rel disk_xyz ''/p''
     \<subseteq> {(''/p/main.lua'', ''/p/x.lua''), (''/p/main.lua'', ''/p/y/z.luau''), (''/p/x.lua'', ''/p/y/z.luau'')}\<close>
proof
  fix e
  assume e: \<open>e \<in> requires_rel disk_xyz ''/p''\<close>
  obtain p q where pq: \<open>e = (p, q)\<close> by (cases e)
  with e obtain c where c: \<open>readFileSync disk_xyz p = Some c\<close>
    and q: \<open>q \<in> set (resolved_requires disk_xyz ''/p'' c)\<close>
    unfolding requires_rel_def by blast
  from read_disk_xyz [OF c]
  show \<open>e \<in> {(''/p/main.lua'', ''/p/x.lua''), (''/p/main.lua'', ''/p/y/z.luau''),
      (''/p/x.lua'', ''/p/y/z.luau'')}\<close>
  proof (elim disjE conjE)
    assume p: \<open>p = ''/p/main.lua''\<close>
      and \<open>c = ''local x = require("x")'' @ [CHR 0x0A] @ ''return require('y.z')''\<close>
    with q have \<open>q \<in> set [''/p/x.lua'', ''/p/y/z.luau'']\<close>
      by (simp only: resolved_requires_xyz)
    then have \<open>q = ''/p/x.lua'' \<or> q = ''/p/y/z.luau''\<close>
      by (simp only: list.set insert_iff empty_iff simp_thms)
    with p pq show ?thesis by blast
  next
    assume p: \<open>p = ''/p/x.lua''\<close> and \<open>c = ''return require("y.z")''\<close>
    with q have \<open>q \<in> set [''/p/y/z.luau'']\<close>
      by (simp only: resolved_requires_xyz)
    then have \<open>q = ''/p/y/z.luau''\<close>
      by (simp only: list.set insert_iff empty_iff simp_thms)
    with p pq show ?thesis by blast
  next
    assume \<open>c = ''return 1''\<close>
    with q have \<open>q \<in> set []\<close>
      by (simp only: resolved_requires_xyz)
    then show ?thesis by simp
  qed
qed

lemma acyclic_xyz:
  \<open>acyclic (Restr (requires_rel disk_xyz ''/p'') A)\<close>
proof (rule acyclic_subset)
  show \<open>acyclic {(''/p/main.lua'', ''/p/x.lua''), (''/p/main.lua'', ''/p/y/z.luau''),
      (''/p/x.lua'', ''/p/y/z.luau'')}\<close>
    by (rule acyclicI_order [where f = \<open>\<lambda>p. if p = ''/p/main.lua'' then 2
          else if p = ''/p/x.lua'' then 1 else (0::nat)\<close>]) auto
  show \<open>Restr (requires_rel disk_xyz ''/p'') A
      \<subseteq> {(''/p/main.lua'', ''/p/x.lua''), (''/p/main.lua'', ''/p/y/z.luau''),
          (''/p/x.lua'', ''/p/y/z.luau'')}\<close>
    using requires_rel_xyz by blast
qed

lemma finite_disk: \<open>finite {p. existsSync (disk files) p}\<close>
proof -
  have \<open>{p. existsSync (disk files) p} = dom (map_of files)\<close>
    by (auto simp: disk_def)
  then show ?thesis by (simp add: finite_dom_map_of)
qed

text \<open>
  Claim C6. On a finite file system, when the relation of the files reached from a text to
  the files they require has no cycle, \<open>getRequires\<close> on the text returns or throws with
  every depth of calls from some depth on; and when this holds of the entry script,
  so does \<open>bundle\<close>.
\<close>

theorem acyclic_requires_terminate:
  assumes \<open>finite {p. existsSync fs p}\<close>
  shows \<open>(acyclic (Restr (requires_rel fs base) (reachable_files fs base s)) \<longrightarrow>
        (\<exists>n. \<forall>m\<ge>n. getRequires m fs base s \<noteq> None))
     \<and> ((\<forall>main. readFileSync fs (mainFile b) = Some main \<longrightarrow>
           acyclic (Restr (requires_rel fs (baseDir b)) (reachable_files fs (baseDir b) main))) \<longrightarrow>
        (\<exists>n. \<forall>m\<ge>n. bundle_lua m fs gen (b, k) \<noteq> None))\<close>
proof (intro conjI impI)
  assume \<open>acyclic (Restr (requires_rel fs base) (reachable_files fs base s))\<close>
  with assms show \<open>\<exists>n. \<forall>m\<ge>n. getRequires m fs base s \<noteq> None\<close>
    by (rule getRequires_returns)
next
  assume a: \<open>\<forall>main. readFileSync fs (mainFile b) = Some main \<longrightarrow>
           acyclic (Restr (requires_rel fs (baseDir b)) (reachable_files fs (baseDir b) main))\<close>
  show \<open>\<exists>n. \<forall>m\<ge>n. bundle_lua m fs gen (b, k) \<noteq> None\<close>
  proof (cases \<open>readFileSync fs (mainFile b)\<close>)
    case None
    then have \<open>\<forall>m\<ge>0. bundle_lua m fs gen (b, k) \<noteq> None\<close>
      by (simp add: bundle_lua_None)
    then show ?thesis by blast
  next
    case (Some main)
    with a have \<open>acyclic (Restr (requires_rel fs (baseDir b)) (reachable_files fs (baseDir b) main))\<close>
      by simp
    from getRequires_returns [OF assms this] obtain n where
      \<open>\<forall>m\<ge>n. getRequires m fs (baseDir b) main \<noteq> None\<close> by blast
    with Some have \<open>\<forall>m\<ge>n. bundle_lua m fs gen (b, k) \<noteq> None\<close>
      by (simp add: bundle_lua_None)
    then show ?thesis by blast
  qed
qed

theorem acyclic_requires_terminate_witness:
  \<open>finite {p. existsSync disk_xyz p}
   \<and> acyclic (Restr (requires_rel disk_xyz ''/p'')
        (reachable_files disk_xyz ''/p''
           (''local x = require("x")'' @ [CHR 0x0A] @ ''return require('y.z')'')))
   \<and> (\<exists>n. \<forall>m\<ge>n. getRequires m disk_xyz ''/p''
          (''local x = require("x")'' @ [CHR 0x0A] @ ''return require('y.z')'') \<noteq> None)
   \<and> (\<exists>n. \<forall>m\<ge>n. bundle_lua m disk_xyz example_uuid (fresh ''/p/main.lua'' ''/p'', 0) \<noteq> None)\<close>
proof -
  have f: \<open>finite {p. existsSync disk_xyz p}\<close>
    unfolding disk_xyz_def by (rule finite_disk)
  have b: \<open>baseDir (fresh ''/p/main.lua'' ''/p'') = ''/p''\<close> by (simp add: fresh_def)
  note t = acyclic_requires_terminate [OF f, of \<open>''/p''\<close>
      \<open>''local x = require("x")'' @ [CHR 0x0A] @ ''return require('y.z')''\<close>
      \<open>fresh ''/p/main.lua'' ''/p''\<close> example_uuid 0]
  from t acyclic_xyz have 1: \<open>\<exists>n. \<forall>m\<ge>n. getRequires m disk_xyz ''/p''
          (''local x = require("x")'' @ [CHR 0x0A] @ ''return require('y.z')'') \<noteq> None\<close>
    by blast
  from t acyclic_xyz have 2: \<open>\<exists>n. \<forall>m\<ge>n. bundle_lua m disk_xyz example_uuid
      (fresh ''/p/main.lua'' ''/p'', 0) \<noteq> None\<close>
    unfolding b by blast
  from f acyclic_xyz 1 2 show ?thesis by (intro conjI)
qed

end
